theory Spec2Isabelle
  imports Main "HOL-Library.Word" "HOL-Library.List_Lexorder"
begin

section \<open>JavaScript strings\<close>

text \<open>
  A JavaScript string is a sequence of UTF-16 code units. Every character the sources use
  (the variables, the digits, the parentheses and the eight operator symbols) lies in the
  Basic Multilingual Plane, so each is one code unit. The regular expressions of the
  sources carry no \<open>u\<close> flag and work on code units as well.
\<close>

type_synonym jsstring = "nat list"

definition str :: "string \<Rightarrow> jsstring" where
  "str s = map of_char s"

text \<open>\<open>String.prototype.includes\<close>: the argument occurs as a contiguous substring.\<close>

fun includes_js :: "jsstring \<Rightarrow> jsstring \<Rightarrow> bool" where
  "includes_js [] v = (v = [])"
| "includes_js (c # cs) v = (take (length v) (c # cs) = v \<or> includes_js cs v)"

section \<open>logicOperations.js\<close>

subsection \<open>extractVariables\<close>

text \<open>
  \<open>new Set(xs)\<close> keeps the first occurrence of every element, in insertion order;
  spreading it gives back that list. \<open>Array.prototype.sort\<close> without a comparator
  orders strings by their code units, which is the lexicographic order on \<open>nat list\<close>.
\<close>

definition setAdd :: "'a list \<Rightarrow> 'a \<Rightarrow> 'a list" where
  "setAdd s x = (if x \<in> set s then s else s @ [x])"

definition newSet :: "'a list \<Rightarrow> 'a list" where
  "newSet xs = foldl setAdd [] xs"

text \<open>The variable alphabet, \<open>VARIABLES\<close> of constants.js.\<close>

definition VARIABLES :: "jsstring list" where
  "VARIABLES = [str ''p'', str ''q'', str ''r'', str ''x'', str ''y'', str ''z'']"

definition extractVariables :: "jsstring \<Rightarrow> jsstring list" where
  "extractVariables expression =
     (let variables = [str ''p'', str ''q'', str ''r'', str ''x'', str ''y'', str ''z'']
      in sort (newSet (filter (\<lambda>v. includes_js expression v) variables)))"

subsection \<open>generateCombinations\<close>

text \<open>
  \<open>!!(i & (1 << j))\<close>: both operands are converted to 32-bit integers, the shift count
  is taken modulo 32, and the result is true when the conjunction is not zero.
\<close>

definition bitTest :: "nat \<Rightarrow> nat \<Rightarrow> bool" where
  "bitTest i j = (and (word_of_nat i :: 32 word) (push_bit (j mod 32) 1) \<noteq> 0)"

text \<open>
  The inner loop \<open>for (let j = numVariables - 1; j >= 0; j--)\<close>: the second argument is
  \<open>j + 1\<close>, the number of iterations still to run; each iteration puts its boolean at the
  front of the array (\<open>unshift\<close>).
\<close>

fun combinationLoop :: "nat \<Rightarrow> nat \<Rightarrow> bool list \<Rightarrow> bool list" where
  "combinationLoop i 0 combination = combination"
| "combinationLoop i (Suc j) combination = combinationLoop i j (bitTest i j # combination)"

text \<open>The outer loop \<open>for (let i = 0; i < totalRows; i++)\<close>, which appends each row.\<close>

function rowsLoop :: "nat \<Rightarrow> nat \<Rightarrow> nat \<Rightarrow> bool list list \<Rightarrow> bool list list" where
  "rowsLoop i totalRows numVariables combinations =
     (if i < totalRows
      then rowsLoop (i + 1) totalRows numVariables
             (combinations @ [combinationLoop i numVariables []])
      else combinations)"
  by pat_completeness auto
termination
  by (relation "measure (\<lambda>(i, totalRows, n, c). totalRows - i)") auto

declare rowsLoop.simps [simp del]

text \<open>
  Only the length of the variable list is read. \<open>Math.pow(2, n)\<close> is the exact power
  of two for every list that fits in memory.
\<close>

definition generateCombinations :: "jsstring list \<Rightarrow> bool list list" where
  "generateCombinations vars =
     (let numVariables = length vars;
          totalRows = 2 ^ numVariables
      in rowsLoop 0 totalRows numVariables [])"

section \<open>expressionEvaluator.js\<close>

subsection \<open>Steps and operators\<close>

text \<open>
  A step of the trace: \<open>{operation, description, result, subSteps}\<close>. Only the step of
  a parenthesised group has \<open>subSteps\<close>. A step list is \<open>null\<close> (\<open>None\<close>) when no trace
  was asked for. Every push of the sources is guarded by \<open>if (steps)\<close> or by
  \<open>if (includeSteps)\<close>: \<open>pushAll\<close> appends the steps a pass has produced, in their
  order, when the list is an array.
\<close>

datatype step =
  Step (operation: jsstring) (description: jsstring) (stepResult: jsstring)
    (subSteps: "step list option")

type_synonym steps = "step list option"

definition pushAll :: "steps \<Rightarrow> step list \<Rightarrow> steps" where
  "pushAll steps xs = (case steps of None \<Rightarrow> None | Some ys \<Rightarrow> Some (ys @ xs))"

datatype binop = AND | OR | NAND | NOR | XOR | XNOR | IMPLICATION

text \<open>The code units of the operator symbols (U+2227, U+2228, U+22BC, U+22BD, U+2295,
  U+2194, U+2192) and of the negation sign (U+00AC).\<close>

fun symbol :: "binop \<Rightarrow> nat" where
  "symbol AND = 8743"
| "symbol OR = 8744"
| "symbol NAND = 8892"
| "symbol NOR = 8893"
| "symbol XOR = 8853"
| "symbol XNOR = 8596"
| "symbol IMPLICATION = 8594"

definition NOT_symbol :: nat where
  "NOT_symbol = 172"

text \<open>The table \<open>operators\<close>: its unary entry and its seven binary entries.\<close>

definition operator_NOT :: "bool \<Rightarrow> bool" where
  "operator_NOT a = (\<not> a)"

fun operators :: "binop \<Rightarrow> bool \<Rightarrow> bool \<Rightarrow> bool" where
  "operators AND a b = (a \<and> b)"
| "operators OR a b = (a \<or> b)"
| "operators NAND a b = (\<not> (a \<and> b))"
| "operators NOR a b = (\<not> (a \<or> b))"
| "operators XOR a b = (a \<noteq> b)"
| "operators XNOR a b = (a = b)"
| "operators IMPLICATION a b = (\<not> a \<or> b)"

fun operatorNames :: "binop \<Rightarrow> jsstring" where
  "operatorNames AND = str ''AND''"
| "operatorNames OR = str ''OR''"
| "operatorNames NAND = str ''NAND''"
| "operatorNames NOR = str ''NOR''"
| "operatorNames XOR = str ''XOR''"
| "operatorNames XNOR = str ''BICONDICIONAL''"
| "operatorNames IMPLICATION = str ''IMPLICACI'' @ [211] @ str ''N''"

definition operatorOrder :: "binop list" where
  "operatorOrder = [AND, OR, NAND, NOR, XOR, XNOR, IMPLICATION]"

text \<open>The class \<open>[01]\<close>, and the characters \<open>b ? '1' : '0'\<close> and \<open>b ? 'V' : 'F'\<close>.\<close>

definition isDigit :: "nat \<Rightarrow> bool" where
  "isDigit c = (c = 48 \<or> c = 49)"

definition digit :: "bool \<Rightarrow> nat" where
  "digit b = (if b then 49 else 48)"

definition VF :: "bool \<Rightarrow> nat" where
  "VF b = (if b then 86 else 70)"

subsection \<open>evaluateSubExpression\<close>

text \<open>
  The callback of the negation pass, \<open>(match, value) => ...\<close>: it gives the character
  that replaces the match, and the step it pushes.
\<close>

definition notCallback :: "jsstring \<Rightarrow> nat \<Rightarrow> nat \<times> step" where
  "notCallback match value =
     (let val = (value = 49);
          res = operator_NOT val
      in (digit res,
          Step match ([NOT_symbol, VF val] @ str '' = '' @ [VF res]) [digit res] None))"

text \<open>
  \<open>result.replace(/\<not>([01])/g, callback)\<close>: one scan from the left over
  non-overlapping matches. A match is the negation sign followed by a digit. The pass
  gives the new string and the steps of its matches, in the order of the scan.
\<close>

fun replaceNot :: "jsstring \<Rightarrow> jsstring \<times> step list" where
  "replaceNot (c # value # rest) =
     (if c = NOT_symbol \<and> isDigit value
      then (case replaceNot rest of
              (out, pushed) \<Rightarrow>
                (fst (notCallback [c, value] value) # out,
                 snd (notCallback [c, value] value) # pushed))
      else (case replaceNot (value # rest) of
              (out, pushed) \<Rightarrow> (c # out, pushed)))"
| "replaceNot rest = (rest, [])"

text \<open>
  The loop \<open>while (result.includes('\<not>')) { ...; if (prevResult === result) break; }\<close>.
  The value \<open>None\<close> stands for a loop that never ends.
\<close>

partial_function (option) notLoop :: "jsstring \<Rightarrow> steps \<Rightarrow> (jsstring \<times> steps) option" where
  "notLoop result steps =
     (if includes_js result [NOT_symbol]
      then (case replaceNot result of
              (result', pushed) \<Rightarrow>
                if result = result' then Some (result', pushAll steps pushed)
                else notLoop result' (pushAll steps pushed))
      else Some (result, steps))"

declare notLoop.simps [code]

text \<open>The callback of a binary pass, \<open>(match, a, b) => ...\<close>.\<close>

definition binCallback :: "binop \<Rightarrow> jsstring \<Rightarrow> nat \<Rightarrow> nat \<Rightarrow> nat \<times> step" where
  "binCallback operator match a b =
     (let valA = (a = 49);
          valB = (b = 49);
          res = operators operator valA valB
      in (digit res,
          Step match
            ([VF valA, 32, symbol operator, 32, VF valB] @ str '' = '' @ [VF res]
               @ str '' ('' @ operatorNames operator @ str '')'')
            [digit res] None))"

text \<open>
  The regular expression \<open>([01])\op([01])\<close> with the flag \<open>g\<close>: \<open>result.match(regex)\<close>
  is not null when the pattern occurs somewhere, and \<open>result.replace(regex, callback)\<close>
  rewrites the non-overlapping matches in one scan from the left.
\<close>

fun matchBin :: "binop \<Rightarrow> jsstring \<Rightarrow> bool" where
  "matchBin operator (a # c # b # rest) =
     ((isDigit a \<and> c = symbol operator \<and> isDigit b) \<or> matchBin operator (c # b # rest))"
| "matchBin operator rest = False"

fun replaceBin :: "binop \<Rightarrow> jsstring \<Rightarrow> jsstring \<times> step list" where
  "replaceBin operator (a # c # b # rest) =
     (if isDigit a \<and> c = symbol operator \<and> isDigit b
      then (case replaceBin operator rest of
              (out, pushed) \<Rightarrow>
                (fst (binCallback operator [a, c, b] a b) # out,
                 snd (binCallback operator [a, c, b] a b) # pushed))
      else (case replaceBin operator (c # b # rest) of
              (out, pushed) \<Rightarrow> (a # out, pushed)))"
| "replaceBin operator rest = (rest, [])"

text \<open>The loop \<open>while (result.match(regex)) { ...; if (prevResult === result) break; }\<close>.\<close>

partial_function (option) binLoop ::
  "binop \<Rightarrow> jsstring \<Rightarrow> steps \<Rightarrow> (jsstring \<times> steps) option" where
  "binLoop operator result steps =
     (if matchBin operator result
      then (case replaceBin operator result of
              (result', pushed) \<Rightarrow>
                if result = result' then Some (result', pushAll steps pushed)
                else binLoop operator result' (pushAll steps pushed))
      else Some (result, steps))"

declare binLoop.simps [code]

text \<open>The loop \<open>for (const operator of operatorOrder)\<close>.\<close>

fun operatorsLoop :: "binop list \<Rightarrow> jsstring \<Rightarrow> steps \<Rightarrow> (jsstring \<times> steps) option" where
  "operatorsLoop [] result steps = Some (result, steps)"
| "operatorsLoop (operator # ops) result steps =
     (case binLoop operator result steps of
        None \<Rightarrow> None
      | Some (result', steps') \<Rightarrow> operatorsLoop ops result' steps')"

text \<open>
  \<open>evaluateSubExpression\<close> gives the boolean \<open>result === '1'\<close>; the array \<open>steps\<close> it
  was handed is returned with the steps it pushed.
\<close>

definition evaluateSubExpression :: "jsstring \<Rightarrow> steps \<Rightarrow> (bool \<times> steps) option" where
  "evaluateSubExpression expr steps =
     (case notLoop expr steps of
        None \<Rightarrow> None
      | Some (result1, steps1) \<Rightarrow>
          (case operatorsLoop operatorOrder result1 steps1 of
             None \<Rightarrow> None
           | Some (result2, steps2) \<Rightarrow> Some (result2 = [49], steps2)))"

subsection \<open>evaluateExpression\<close>

text \<open>
  The callback of the parenthesis pass, \<open>(match, subExpr) => ...\<close>: it evaluates the
  inside of the group with a step list of its own and, when a trace is asked for, pushes
  one step that holds that list.
\<close>

definition parenCallback :: "bool \<Rightarrow> jsstring \<Rightarrow> jsstring \<Rightarrow> (nat \<times> step list) option" where
  "parenCallback includeSteps match subExpr =
     (case evaluateSubExpression subExpr (if includeSteps then Some [] else None) of
        None \<Rightarrow> None
      | Some (subResult, subSteps') \<Rightarrow>
          Some (digit subResult,
                if includeSteps
                then [Step (str ''Evaluaci'' @ [243] @ str ''n: '' @ match)
                        (str ''Par'' @ [233] @ str ''ntesis: '' @ [VF subResult])
                        [digit subResult] subSteps']
                else []))"

text \<open>
  \<open>result.replace(/\(([^()]+)\)/g, callback)\<close>: a match is an opening parenthesis, the
  longest non-empty run of characters that are not parentheses, and a closing
  parenthesis. The scan goes on behind the match; where there is no match it moves one
  character on.
\<close>

definition notParen :: "nat \<Rightarrow> bool" where
  "notParen c = (c \<noteq> 40 \<and> c \<noteq> 41)"

function replaceParens :: "bool \<Rightarrow> jsstring \<Rightarrow> (jsstring \<times> step list) option" where
  "replaceParens includeSteps [] = Some ([], [])"
| "replaceParens includeSteps (c # rest) =
     (if c = 40 \<and> takeWhile notParen rest \<noteq> [] \<and> take 1 (dropWhile notParen rest) = [41]
      then (case parenCallback includeSteps ([40] @ takeWhile notParen rest @ [41])
                  (takeWhile notParen rest) of
              None \<Rightarrow> None
            | Some (replacement, pushed) \<Rightarrow>
                (case replaceParens includeSteps (drop 1 (dropWhile notParen rest)) of
                   None \<Rightarrow> None
                 | Some (out, pushed') \<Rightarrow> Some (replacement # out, pushed @ pushed')))
      else (case replaceParens includeSteps rest of
              None \<Rightarrow> None
            | Some (out, pushed) \<Rightarrow> Some (c # out, pushed)))"
  by pat_completeness auto
termination
  apply (relation "measure (\<lambda>(includeSteps, s). length s)")
  subgoal by simp
  subgoal by (simp add: le_imp_less_Suc order.trans [OF diff_le_self length_dropWhile_le])
  subgoal by simp
  done

text \<open>The loop \<open>while (result.includes('(')) { ...; if (oldResult === result) break; }\<close>.\<close>

partial_function (option) parenLoop ::
  "bool \<Rightarrow> jsstring \<Rightarrow> steps \<Rightarrow> (jsstring \<times> steps) option" where
  "parenLoop includeSteps result steps =
     (if includes_js result [40]
      then (case replaceParens includeSteps result of
              None \<Rightarrow> None
            | Some (result', pushed) \<Rightarrow>
                if result = result' then Some (result', pushAll steps pushed)
                else parenLoop includeSteps result' (pushAll steps pushed))
      else Some (result, steps))"

declare parenLoop.simps [code]

text \<open>
  The keys of an assignment are variable symbols. \<open>Object.entries(values)\<close> lists the
  entries in insertion order, so an assignment is an association list.
\<close>

datatype variable = P | Q | R | X | Y | Z

fun name :: "variable \<Rightarrow> nat" where
  "name P = 112"
| "name Q = 113"
| "name R = 114"
| "name X = 120"
| "name Y = 121"
| "name Z = 122"

text \<open>The word characters of \<open>\b\<close>: the ASCII letters, the digits and the underscore.\<close>

definition isWordChar :: "nat \<Rightarrow> bool" where
  "isWordChar c =
     ((48 \<le> c \<and> c \<le> 57) \<or> (65 \<le> c \<and> c \<le> 90) \<or> c = 95 \<or> (97 \<le> c \<and> c \<le> 122))"

text \<open>
  \<open>result.replace(new RegExp(`\\b${variable}\\b`, 'g'), replacement)\<close> for a variable of
  one letter \<open>v\<close>: a match is an occurrence of \<open>v\<close> with no word character before it and
  none after it. The flag \<open>prev\<close> tells whether the character before the current position
  is a word character.
\<close>

fun replaceVariable :: "nat \<Rightarrow> nat \<Rightarrow> bool \<Rightarrow> jsstring \<Rightarrow> jsstring" where
  "replaceVariable v replacement prev [] = []"
| "replaceVariable v replacement prev (c # rest) =
     (if c = v \<and> \<not> prev \<and> (case rest of [] \<Rightarrow> True | next # _ \<Rightarrow> \<not> isWordChar next)
      then replacement # replaceVariable v replacement (isWordChar c) rest
      else c # replaceVariable v replacement (isWordChar c) rest)"

text \<open>The body of \<open>Object.entries(values).forEach\<close>, on the working string and the
  substitution steps.\<close>

fun substitute :: "bool \<Rightarrow> jsstring \<times> steps \<Rightarrow> variable \<times> bool \<Rightarrow> jsstring \<times> steps" where
  "substitute includeSteps (oldResult, substitutionSteps) (variable, value) =
     (let result = replaceVariable (name variable) (digit value) False oldResult
      in (result,
          if includeSteps \<and> oldResult \<noteq> result
          then pushAll substitutionSteps
                 [Step (str ''Sustituci'' @ [243] @ str ''n: '' @ [name variable])
                    ([name variable] @ str '' = '' @ [VF value])
                    result None]
          else substitutionSteps))"

text \<open>
  The object \<open>evaluateExpression\<close> returns. Without a trace it has the keys \<open>result\<close> and
  \<open>steps\<close> only; \<open>None\<close> is an absent key.
\<close>

record evaluation =
  result :: bool
  steps :: "step list"
  substitutionSteps :: "step list option"
  expression :: "jsstring option"

text \<open>
  The expression is \<open>None\<close> when the caller passes \<open>undefined\<close> or \<open>null\<close>. When a trace
  is asked for, \<open>steps\<close> is an array, so the last \<open>case\<close> never meets \<open>None\<close>.
\<close>

definition evaluateExpression ::
  "jsstring option \<Rightarrow> (variable \<times> bool) list \<Rightarrow> bool \<Rightarrow> evaluation option" where
  "evaluateExpression expr values includeSteps =
     (if expr = None \<or> expr = Some []
      then Some \<lparr>result = False, steps = [], substitutionSteps = None, expression = None\<rparr>
      else
        let e = the expr;
            steps0 = (if includeSteps then Some [] else None);
            substitutionSteps0 =
              (if includeSteps
               then Some [Step (str ''Expresi'' @ [243] @ str ''n original'') e e None]
               else None);
            (result1, substitutionSteps1) =
              foldl (substitute includeSteps) (e, substitutionSteps0) values;
            steps1 =
              (if includeSteps
               then pushAll steps0
                      [Step (str ''Sustituci'' @ [243] @ str ''n de variables'')
                         (str ''Expresi'' @ [243] @ str ''n con valores: '' @ result1)
                         result1 None]
               else steps0)
        in case parenLoop includeSteps result1 steps1 of
             None \<Rightarrow> None
           | Some (result2, steps2) \<Rightarrow>
               (case evaluateSubExpression result2 steps2 of
                  None \<Rightarrow> None
                | Some (finalResult, steps3) \<Rightarrow>
                    if includeSteps
                    then Some \<lparr>result = finalResult,
                               steps = (case steps3 of Some xs \<Rightarrow> xs | None \<Rightarrow> []),
                               substitutionSteps = substitutionSteps1,
                               expression = Some e\<rparr>
                    else Some \<lparr>result = finalResult, steps = [],
                               substitutionSteps = None, expression = None\<rparr>))"

section \<open>Observations on strings and traces\<close>

text \<open>
  What the statements below observe, beside the functions of the sources: whether the
  pattern of the negation pass occurs in a string; the operator a step has resolved (the
  first character of a negation match, the second of a binary match); and the place of an
  operator symbol in the order of evaluation, the negation sign first and then the
  operators of \<open>operatorOrder\<close>.
\<close>

fun matchNot :: "jsstring \<Rightarrow> bool" where
  "matchNot (c # value # rest) = ((c = NOT_symbol \<and> isDigit value) \<or> matchNot (value # rest))"
| "matchNot rest = False"

definition stepOperator :: "step \<Rightarrow> nat" where
  "stepOperator x = operation x ! (length (operation x) - 2)"

definition precedence :: "nat \<Rightarrow> nat" where
  "precedence c = length (takeWhile (\<lambda>x. x \<noteq> c) (NOT_symbol # map symbol operatorOrder))"

text \<open>
  Two shapes of a string without parentheses: every negation sign is followed by another
  negation sign or by a digit; and the string is a digit followed by pairs of a binary
  operator and a digit.
\<close>

fun negationsApplicable :: "jsstring \<Rightarrow> bool" where
  "negationsApplicable [] = True"
| "negationsApplicable [c] = (c \<noteq> NOT_symbol)"
| "negationsApplicable (c # d # rest) =
     ((c = NOT_symbol \<longrightarrow> d = NOT_symbol \<or> isDigit d) \<and> negationsApplicable (d # rest))"

definition isBinaryOperator :: "nat \<Rightarrow> bool" where
  "isBinaryOperator c = (c \<in> set (map symbol operatorOrder))"

fun alternating :: "jsstring \<Rightarrow> bool" where
  "alternating [] = False"
| "alternating [d] = isDigit d"
| "alternating (d # c # rest) = (isDigit d \<and> isBinaryOperator c \<and> alternating rest)"

text \<open>
  The truth tables of the seven binary operators as the documentation of the evaluator
  gives them, to compare the table \<open>operators\<close> with.
\<close>

fun truthTable :: "binop \<Rightarrow> bool \<Rightarrow> bool \<Rightarrow> bool" where
  "truthTable AND a b = (a \<and> b)"
| "truthTable OR a b = (a \<or> b)"
| "truthTable NAND a b = (\<not> (a \<and> b))"
| "truthTable NOR a b = (\<not> (a \<or> b))"
| "truthTable XOR a b = (a \<noteq> b)"
| "truthTable XNOR a b = (a = b)"
| "truthTable IMPLICATION a b = (\<not> a \<or> b)"

text \<open>
  One replacement in a string: one occurrence of the negation sign and a digit gives way
  to the negated digit, or one occurrence of a digit, the operator and a digit gives way
  to the value of the truth table at the two digits. The rest of the string stays as it
  is.
\<close>

fun negationReplaced :: "jsstring \<Rightarrow> jsstring \<Rightarrow> bool" where
  "negationReplaced (c # v # rest) out =
     ((c = NOT_symbol \<and> isDigit v \<and> out = digit (v \<noteq> 49) # rest)
      \<or> (out \<noteq> [] \<and> hd out = c \<and> negationReplaced (v # rest) (tl out)))"
| "negationReplaced s out = False"

fun operatorReplaced :: "binop \<Rightarrow> jsstring \<Rightarrow> jsstring \<Rightarrow> bool" where
  "operatorReplaced op (a # c # b # rest) out =
     ((isDigit a \<and> c = symbol op \<and> isDigit b
         \<and> out = digit (truthTable op (a = 49) (b = 49)) # rest)
      \<or> (out \<noteq> [] \<and> hd out = a \<and> operatorReplaced op (c # b # rest) (tl out)))"
| "operatorReplaced op s out = False"

text \<open>
  A step of the trace that records such a replacement: its \<open>operation\<close> is the text of
  the match, and its \<open>result\<close> is the character that has replaced the match.
\<close>

definition reduction :: "step \<Rightarrow> bool" where
  "reduction x =
     ((\<exists>v. isDigit v \<and> operation x = [NOT_symbol, v] \<and> stepResult x = [digit (v \<noteq> 49)])
      \<or> (\<exists>op a b. isDigit a \<and> isDigit b \<and> operation x = [a, symbol op, b]
            \<and> stepResult x = [digit (truthTable op (a = 49) (b = 49))]))"

text \<open>
  A well-formed string without parentheses: operands separated by single binary
  operators, an operand being a digit with any number of negation signs in front of it.
\<close>

fun wellFormed :: "jsstring \<Rightarrow> bool" where
  "wellFormed [] = False"
| "wellFormed [c] = isDigit c"
| "wellFormed (c # d # rest) =
     (if c = NOT_symbol then wellFormed (d # rest)
      else isDigit c \<and> isBinaryOperator d \<and> wellFormed rest)"

text \<open>
  An assignment extended with an entry, \<open>values[v] = b\<close>: the value of an existing key is
  replaced in place, a new key goes to the end.
\<close>

fun assign :: "variable \<Rightarrow> bool \<Rightarrow> (variable \<times> bool) list \<Rightarrow> (variable \<times> bool) list" where
  "assign v b [] = [(v, b)]"
| "assign v b ((k, x) # rest) = (if k = v then (v, b) # rest else (k, x) # assign v b rest)"

text \<open>
  The working string after the first \<open>i\<close> entries of the assignment have been
  substituted; the three kinds of step the substitution phase records; and the entries
  whose replacement changes the working string.
\<close>

definition workingString :: "jsstring \<Rightarrow> (variable \<times> bool) list \<Rightarrow> nat \<Rightarrow> jsstring" where
  "workingString e values i = fst (foldl (substitute False) (e, None) (take i values))"

definition substitutionStep :: "variable \<times> bool \<Rightarrow> jsstring \<Rightarrow> step" where
  "substitutionStep entry s =
     Step (str ''Sustituci'' @ [243] @ str ''n: '' @ [name (fst entry)])
       ([name (fst entry)] @ str '' = '' @ [VF (snd entry)]) s None"

definition originalStep :: "jsstring \<Rightarrow> step" where
  "originalStep e = Step (str ''Expresi'' @ [243] @ str ''n original'') e e None"

definition substitutedStep :: "jsstring \<Rightarrow> step" where
  "substitutedStep s =
     Step (str ''Sustituci'' @ [243] @ str ''n de variables'')
       (str ''Expresi'' @ [243] @ str ''n con valores: '' @ s) s None"

definition changedEntries :: "jsstring \<Rightarrow> (variable \<times> bool) list \<Rightarrow> nat list" where
  "changedEntries e values =
     filter (\<lambda>i. workingString e values (Suc i) \<noteq> workingString e values i) [0..<length values]"

section \<open>Evaluation rules for the loops\<close>

lemma rowsLoop_step [simp]:
  "i < totalRows \<Longrightarrow>
     rowsLoop i totalRows n c = rowsLoop (i + 1) totalRows n (c @ [combinationLoop i n []])"
  by (simp add: rowsLoop.simps [of i])

lemma rowsLoop_done [simp]:
  "\<not> i < totalRows \<Longrightarrow> rowsLoop i totalRows n c = c"
  by (simp add: rowsLoop.simps [of i])

lemma combinationLoop_numeral [simp]:
  "combinationLoop i (numeral k) c =
     combinationLoop i (pred_numeral k) (bitTest i (pred_numeral k) # c)"
  by (simp add: numeral_eq_Suc)

text \<open>The definitions a concrete evaluation unfolds.\<close>

lemmas eval_defs = evaluateExpression_def str_def digit_def VF_def isDigit_def isWordChar_def
  notParen_def NOT_symbol_def operatorOrder_def operator_NOT_def pushAll_def
  evaluateSubExpression_def parenCallback_def notCallback_def binCallback_def
  notLoop.simps binLoop.simps parenLoop.simps

section \<open>The passes shorten the string, and the loops return\<close>

text \<open>
  A pass that changes the string makes it shorter, and a parenthesis pass that changes it
  takes opening parentheses away. These are the measures that bound the three loops.
\<close>

lemma includes_js_single: "includes_js s [c] = (c \<in> set s)"
  by (induction s) auto

lemma replaceNot_length: "length (fst (replaceNot s)) \<le> length s"
  by (induction s rule: replaceNot.induct) (auto split: prod.splits)

lemma replaceNot_same_length:
  "length (fst (replaceNot s)) = length s \<Longrightarrow> replaceNot s = (s, [])"
proof (induction s rule: replaceNot.induct)
  case (1 c v rest)
  show ?case
  proof (cases "c = NOT_symbol \<and> isDigit v")
    case True
    with "1.prems" replaceNot_length [of rest] show ?thesis
      by (simp split: prod.splits)
  next
    case False
    with "1.prems" "1.IH"(2) show ?thesis
      by (auto split: prod.splits)
  qed
qed simp_all

lemma replaceNot_changed_shorter:
  "fst (replaceNot s) \<noteq> s \<Longrightarrow> length (fst (replaceNot s)) < length s"
  using replaceNot_length [of s] replaceNot_same_length [of s]
  by (cases "length (fst (replaceNot s)) = length s") auto

lemma notLoop_total: "\<exists>r. notLoop s st = Some r"
proof (induction s arbitrary: st rule: measure_induct_rule [where f = length])
  case (less s)
  show ?case
  proof (cases "includes_js s [NOT_symbol] \<and> fst (replaceNot s) \<noteq> s")
    case True
    then have "length (fst (replaceNot s)) < length s"
      by (simp add: replaceNot_changed_shorter)
    from less [OF this, of "pushAll st (snd (replaceNot s))"] True show ?thesis
      by (subst notLoop.simps) (auto split: prod.splits)
  next
    case False
    then show ?thesis
      by (subst notLoop.simps) (auto split: prod.splits)
  qed
qed

lemma replaceBin_length: "length (fst (replaceBin op s)) \<le> length s"
  by (induction op s rule: replaceBin.induct) (auto split: prod.splits)

lemma replaceBin_same_length:
  "length (fst (replaceBin op s)) = length s \<Longrightarrow> replaceBin op s = (s, [])"
proof (induction op s rule: replaceBin.induct)
  case (1 op a c b rest)
  show ?case
  proof (cases "isDigit a \<and> c = symbol op \<and> isDigit b")
    case True
    with "1.prems" replaceBin_length [of op rest] show ?thesis
      by (simp split: prod.splits)
  next
    case False
    with "1.prems" "1.IH"(2) show ?thesis
      by (auto split: prod.splits)
  qed
qed simp_all

lemma replaceBin_changed_shorter:
  "fst (replaceBin op s) \<noteq> s \<Longrightarrow> length (fst (replaceBin op s)) < length s"
  using replaceBin_length [of op s] replaceBin_same_length [of op s]
  by (cases "length (fst (replaceBin op s)) = length s") auto

lemma binLoop_total: "\<exists>r. binLoop op s st = Some r"
proof (induction s arbitrary: st rule: measure_induct_rule [where f = length])
  case (less s)
  show ?case
  proof (cases "matchBin op s \<and> fst (replaceBin op s) \<noteq> s")
    case True
    then have "length (fst (replaceBin op s)) < length s"
      by (simp add: replaceBin_changed_shorter)
    from less [OF this, of "pushAll st (snd (replaceBin op s))"] True show ?thesis
      by (subst binLoop.simps) (auto split: prod.splits)
  next
    case False
    then show ?thesis
      by (subst binLoop.simps) (auto split: prod.splits)
  qed
qed

lemma operatorsLoop_total: "\<exists>r. operatorsLoop ops s st = Some r"
proof (induction ops arbitrary: s st)
  case Nil
  show ?case by simp
next
  case (Cons op ops)
  obtain s' st' where "binLoop op s st = Some (s', st')"
    using binLoop_total [of op s st] by auto
  with Cons [of s' st'] show ?case by simp
qed

lemma evaluateSubExpression_total: "\<exists>r. evaluateSubExpression s st = Some r"
proof -
  obtain s1 st1 where a: "notLoop s st = Some (s1, st1)"
    using notLoop_total [of s st] by auto
  obtain s2 st2 where "operatorsLoop operatorOrder s1 st1 = Some (s2, st2)"
    using operatorsLoop_total [of operatorOrder s1 st1] by auto
  with a show ?thesis
    by (simp add: evaluateSubExpression_def)
qed

lemma parenCallback_total: "\<exists>r. parenCallback t m s = Some r"
  using evaluateSubExpression_total [of s "if t then Some [] else None"]
  by (auto simp: parenCallback_def)

lemma parenCallback_digit: "parenCallback t m s = Some (d, pushed) \<Longrightarrow> isDigit d"
  by (auto simp: parenCallback_def digit_def isDigit_def split: option.splits)

lemma replaceParens_total: "\<exists>r. replaceParens t s = Some r"
proof (induction t s rule: replaceParens.induct)
  case (1 t)
  show ?case by simp
next
  case (2 t c rest)
  show ?case
  proof (cases "c = 40 \<and> takeWhile notParen rest \<noteq> [] \<and> take 1 (dropWhile notParen rest) = [41]")
    case True
    obtain d pushed where cb:
      "parenCallback t ([40] @ takeWhile notParen rest @ [41]) (takeWhile notParen rest) = Some (d, pushed)"
      using parenCallback_total by fastforce
    from "2.IH"(1) [OF True cb refl] True cb show ?thesis
      by auto
  next
    case False
    with "2.IH"(2) show ?thesis by auto
  qed
qed

lemma count_split_parens:
  "count_list rest 40 = count_list (dropWhile notParen rest) (40::nat)"
proof -
  have "count_list (takeWhile notParen rest) 40 = 0"
    by (induction rest) (auto simp: notParen_def)
  moreover have "count_list rest 40 =
      count_list (takeWhile notParen rest) 40 + count_list (dropWhile notParen rest) 40"
    by (metis count_list_append takeWhile_dropWhile_id)
  ultimately show ?thesis by simp
qed

lemma count_drop_rparen:
  "take 1 xs = [41] \<Longrightarrow> count_list (drop 1 xs) (40::nat) = count_list xs 40"
  by (cases xs) auto

lemma replaceParens_count_le:
  "replaceParens t s = Some (out, pushed) \<Longrightarrow> count_list out 40 \<le> count_list s 40"
proof (induction t s arbitrary: out pushed rule: replaceParens.induct)
  case (1 t)
  then show ?case by simp
next
  case (2 t c rest)
  show ?case
  proof (cases "c = 40 \<and> takeWhile notParen rest \<noteq> [] \<and> take 1 (dropWhile notParen rest) = [41]")
    case True
    then obtain d p1 out' p2 where cb:
      "parenCallback t ([40] @ takeWhile notParen rest @ [41]) (takeWhile notParen rest) = Some (d, p1)"
      and rec: "replaceParens t (drop 1 (dropWhile notParen rest)) = Some (out', p2)"
      and out: "out = d # out'"
      using "2.prems" by (auto split: option.splits)
    have "count_list out' 40 \<le> count_list (drop 1 (dropWhile notParen rest)) 40"
      using "2.IH"(1) [OF True cb refl rec] .
    also have "\<dots> = count_list rest 40"
      using True count_drop_rparen count_split_parens by simp
    finally show ?thesis
      using out parenCallback_digit [OF cb] by (auto simp: isDigit_def)
  next
    case False
    then obtain out' where rec: "replaceParens t rest = Some (out', pushed)" and out: "out = c # out'"
      using "2.prems" by (auto split: option.splits)
    from "2.IH"(2) [OF False rec] out show ?thesis by simp
  qed
qed

lemma replaceParens_changed_fewer:
  "replaceParens t s = Some (out, pushed) \<Longrightarrow> out \<noteq> s \<Longrightarrow>
     count_list out 40 < count_list s 40"
proof (induction t s arbitrary: out pushed rule: replaceParens.induct)
  case (1 t)
  then show ?case by simp
next
  case (2 t c rest)
  show ?case
  proof (cases "c = 40 \<and> takeWhile notParen rest \<noteq> [] \<and> take 1 (dropWhile notParen rest) = [41]")
    case True
    then obtain d p1 out' p2 where cb:
      "parenCallback t ([40] @ takeWhile notParen rest @ [41]) (takeWhile notParen rest) = Some (d, p1)"
      and rec: "replaceParens t (drop 1 (dropWhile notParen rest)) = Some (out', p2)"
      and out: "out = d # out'"
      using "2.prems"(1) by (auto split: option.splits)
    have "count_list out' 40 \<le> count_list (drop 1 (dropWhile notParen rest)) 40"
      using replaceParens_count_le [OF rec] .
    also have "\<dots> = count_list rest 40"
      using True count_drop_rparen count_split_parens by simp
    finally show ?thesis
      using out True parenCallback_digit [OF cb] by (auto simp: isDigit_def)
  next
    case False
    then obtain out' where rec: "replaceParens t rest = Some (out', pushed)" and out: "out = c # out'"
      using "2.prems"(1) by (auto split: option.splits)
    from "2.IH"(2) [OF False rec] out "2.prems"(2) show ?thesis by simp
  qed
qed

lemma parenLoop_total: "\<exists>r. parenLoop t s st = Some r"
proof (induction s arbitrary: st rule: measure_induct_rule [where f = "\<lambda>s. count_list s (40::nat)"])
  case (less s)
  obtain out pushed where rp: "replaceParens t s = Some (out, pushed)"
    using replaceParens_total [of t s] by auto
  show ?case
  proof (cases "includes_js s [40] \<and> out \<noteq> s")
    case True
    then have "count_list out 40 < count_list s 40"
      using replaceParens_changed_fewer [OF rp] by simp
    from less [OF this, of "pushAll st pushed"] True rp show ?thesis
      by (subst parenLoop.simps) auto
  next
    case False
    with rp show ?thesis
      by (subst parenLoop.simps) auto
  qed
qed

lemma evaluateExpression_total: "\<exists>r. evaluateExpression e a t = Some r"
proof -
  have p: "parenLoop t' s st \<noteq> None" for t' s st
    using parenLoop_total [of t' s st] by auto
  have q: "evaluateSubExpression s st \<noteq> None" for s st
    using evaluateSubExpression_total [of s st] by auto
  show ?thesis
    by (auto simp: evaluateExpression_def Let_def p q split: prod.splits option.splits)
qed

lemma replaceParens_length_le:
  "replaceParens t s = Some (out, pushed) \<Longrightarrow> length out \<le> length s"
proof (induction t s arbitrary: out pushed rule: replaceParens.induct)
  case (1 t)
  then show ?case by simp
next
  case (2 t c rest)
  show ?case
  proof (cases "c = 40 \<and> takeWhile notParen rest \<noteq> [] \<and> take 1 (dropWhile notParen rest) = [41]")
    case True
    then obtain d p1 out' p2 where cb:
      "parenCallback t ([40] @ takeWhile notParen rest @ [41]) (takeWhile notParen rest) = Some (d, p1)"
      and rec: "replaceParens t (drop 1 (dropWhile notParen rest)) = Some (out', p2)"
      and out: "out = d # out'"
      using "2.prems" by (auto split: option.splits)
    have "length out' \<le> length (drop 1 (dropWhile notParen rest))"
      using "2.IH"(1) [OF True cb refl rec] .
    also have "\<dots> \<le> length rest"
      using length_dropWhile_le [of notParen rest] by simp
    finally show ?thesis using out by simp
  next
    case False
    then obtain out' where rec: "replaceParens t rest = Some (out', pushed)" and out: "out = c # out'"
      using "2.prems" by (auto split: option.splits)
    from "2.IH"(2) [OF False rec] out show ?thesis by simp
  qed
qed

lemma replaceParens_unchanged:
  "replaceParens t s = Some (s, pushed) \<Longrightarrow> pushed = []"
proof (induction t s arbitrary: pushed rule: replaceParens.induct)
  case (1 t)
  then show ?case by simp
next
  case (2 t c rest)
  show ?case
  proof (cases "c = 40 \<and> takeWhile notParen rest \<noteq> [] \<and> take 1 (dropWhile notParen rest) = [41]")
    case True
    then obtain p2 where rec: "replaceParens t (drop 1 (dropWhile notParen rest)) = Some (rest, p2)"
      using "2.prems" by (auto split: option.splits)
    have "length rest \<le> length (drop 1 (dropWhile notParen rest))"
      using replaceParens_length_le [OF rec] .
    moreover have "dropWhile notParen rest \<noteq> []"
    proof
      assume "dropWhile notParen rest = []"
      with True show False by simp
    qed
    ultimately have False
      using length_dropWhile_le [of notParen rest]
      by (cases "dropWhile notParen rest") auto
    then show ?thesis ..
  next
    case False
    then have "replaceParens t rest = Some (rest, pushed)"
      using "2.prems" by (auto split: option.splits)
    from "2.IH"(2) [OF False this] show ?thesis .
  qed
qed

lemma matchBin_changes: "matchBin op s \<Longrightarrow> fst (replaceBin op s) \<noteq> s"
proof (induction op s rule: replaceBin.induct)
  case (1 op a c b rest)
  show ?case
  proof (cases "isDigit a \<and> c = symbol op \<and> isDigit b")
    case True
    have "length (fst (replaceBin op rest)) \<le> length rest"
      by (rule replaceBin_length)
    with True show ?thesis
      by (auto split: prod.splits)
  next
    case False
    with "1.prems" "1.IH"(2) show ?thesis
      by (auto split: prod.splits)
  qed
qed simp_all

lemma matchBin_shorter: "matchBin op s \<Longrightarrow> length (fst (replaceBin op s)) < length s"
  by (simp add: matchBin_changes replaceBin_changed_shorter)

lemma notLoop_abort: "fst (replaceNot s) = s \<Longrightarrow> notLoop s st = Some (s, st)"
  using replaceNot_same_length [of s]
  by (subst notLoop.simps) (auto simp: pushAll_def split: prod.splits option.splits)

lemma binLoop_done: "\<not> matchBin op s \<Longrightarrow> binLoop op s st = Some (s, st)"
  by (subst binLoop.simps) simp

lemma parenLoop_abort:
  "replaceParens t s = Some (s, pushed) \<Longrightarrow> parenLoop t s st = Some (s, st)"
  using replaceParens_unchanged [of t s pushed]
  by (subst parenLoop.simps) (auto simp: pushAll_def split: option.splits)


section \<open>The order of the steps\<close>

lemma matchNot_changes: "matchNot s \<Longrightarrow> fst (replaceNot s) \<noteq> s"
proof (induction s rule: replaceNot.induct)
  case (1 c v rest)
  show ?case
  proof (cases "c = NOT_symbol \<and> isDigit v")
    case True
    have "length (fst (replaceNot rest)) \<le> length rest"
      by (rule replaceNot_length)
    with True show ?thesis
      by (auto split: prod.splits)
  next
    case False
    with "1.prems" "1.IH"(2) show ?thesis
      by (auto split: prod.splits)
  qed
qed simp_all

lemma matchNot_has_NOT: "matchNot s \<Longrightarrow> NOT_symbol \<in> set s"
  by (induction s rule: matchNot.induct) auto

lemma replaceNot_steps: "x \<in> set (snd (replaceNot s)) \<Longrightarrow> stepOperator x = NOT_symbol"
  by (induction s rule: replaceNot.induct)
     (auto simp: stepOperator_def notCallback_def Let_def split: prod.splits if_splits)

lemma replaceBin_steps: "x \<in> set (snd (replaceBin op s)) \<Longrightarrow> stepOperator x = symbol op"
  by (induction op s rule: replaceBin.induct)
     (auto simp: stepOperator_def binCallback_def Let_def split: prod.splits if_splits)

lemma notLoop_post: "notLoop s st = Some (r, st') \<Longrightarrow> \<not> matchNot r"
proof (induction s arbitrary: st rule: measure_induct_rule [where f = length])
  case (less s)
  show ?case
  proof (cases "includes_js s [NOT_symbol]")
    case False
    with less.prems have "r = s"
      by (subst (asm) notLoop.simps) simp
    with False matchNot_has_NOT [of s] show ?thesis
      by (auto simp: includes_js_single)
  next
    case True
    show ?thesis
    proof (cases "fst (replaceNot s) = s")
      case same: True
      with True less.prems have "r = s"
        by (subst (asm) notLoop.simps) (auto split: prod.splits)
      with same matchNot_changes [of s] show ?thesis by auto
    next
      case False
      with True less.prems have
        "notLoop (fst (replaceNot s)) (pushAll st (snd (replaceNot s))) = Some (r, st')"
        by (subst (asm) notLoop.simps) (auto split: prod.splits)
      from less.IH [OF replaceNot_changed_shorter [OF False] this] show ?thesis .
    qed
  qed
qed

lemma notLoop_trace:
  "notLoop s (Some st) = Some (r, st') \<Longrightarrow>
     \<exists>new. st' = Some (st @ new) \<and> (\<forall>x\<in>set new. stepOperator x = NOT_symbol)"
proof (induction s arbitrary: st rule: measure_induct_rule [where f = length])
  case (less s)
  show ?case
  proof (cases "includes_js s [NOT_symbol]")
    case False
    with less.prems have "st' = Some (st @ [])"
      by (subst (asm) notLoop.simps) simp
    then show ?thesis by fastforce
  next
    case True
    show ?thesis
    proof (cases "fst (replaceNot s) = s")
      case same: True
      with True less.prems have "st' = Some (st @ snd (replaceNot s))"
        by (subst (asm) notLoop.simps) (auto simp: pushAll_def split: prod.splits)
      then show ?thesis
        using replaceNot_steps by blast
    next
      case False
      with True less.prems have
        "notLoop (fst (replaceNot s)) (Some (st @ snd (replaceNot s))) = Some (r, st')"
        by (subst (asm) notLoop.simps) (auto simp: pushAll_def split: prod.splits)
      from less.IH [OF replaceNot_changed_shorter [OF False] this]
      obtain new where "st' = Some ((st @ snd (replaceNot s)) @ new)"
        and "\<forall>x\<in>set new. stepOperator x = NOT_symbol"
        by auto
      then have "st' = Some (st @ (snd (replaceNot s) @ new))"
        and "\<forall>x\<in>set (snd (replaceNot s) @ new). stepOperator x = NOT_symbol"
        using replaceNot_steps by auto
      then show ?thesis by blast
    qed
  qed
qed

lemma binLoop_post: "binLoop op s st = Some (r, st') \<Longrightarrow> \<not> matchBin op r"
proof (induction s arbitrary: st rule: measure_induct_rule [where f = length])
  case (less s)
  show ?case
  proof (cases "matchBin op s")
    case False
    with less.prems have "r = s"
      by (subst (asm) binLoop.simps) simp
    with False show ?thesis by simp
  next
    case True
    then have changed: "fst (replaceBin op s) \<noteq> s"
      by (rule matchBin_changes)
    with True less.prems have
      "binLoop op (fst (replaceBin op s)) (pushAll st (snd (replaceBin op s))) = Some (r, st')"
      by (subst (asm) binLoop.simps) (auto split: prod.splits)
    from less.IH [OF replaceBin_changed_shorter [OF changed] this] show ?thesis .
  qed
qed

lemma binLoop_trace:
  "binLoop op s (Some st) = Some (r, st') \<Longrightarrow>
     \<exists>new. st' = Some (st @ new) \<and> (\<forall>x\<in>set new. stepOperator x = symbol op)"
proof (induction s arbitrary: st rule: measure_induct_rule [where f = length])
  case (less s)
  show ?case
  proof (cases "matchBin op s")
    case False
    with less.prems have "st' = Some (st @ [])"
      by (subst (asm) binLoop.simps) simp
    then show ?thesis by fastforce
  next
    case True
    then have changed: "fst (replaceBin op s) \<noteq> s"
      by (rule matchBin_changes)
    with True less.prems have
      "binLoop op (fst (replaceBin op s)) (Some (st @ snd (replaceBin op s))) = Some (r, st')"
      by (subst (asm) binLoop.simps) (auto simp: pushAll_def split: prod.splits)
    from less.IH [OF replaceBin_changed_shorter [OF changed] this]
    obtain new where "st' = Some ((st @ snd (replaceBin op s)) @ new)"
      and "\<forall>x\<in>set new. stepOperator x = symbol op"
      by auto
    then have "st' = Some (st @ (snd (replaceBin op s) @ new))"
      and "\<forall>x\<in>set (snd (replaceBin op s) @ new). stepOperator x = symbol op"
      using replaceBin_steps by auto
    then show ?thesis by blast
  qed
qed

lemma sorted_constant: "\<forall>x\<in>set xs. f x = c \<Longrightarrow> sorted (map f xs)"
  for f :: "'a \<Rightarrow> nat"
  by (induction xs) auto

lemma operatorsLoop_trace:
  "sorted (map (\<lambda>op. precedence (symbol op)) ops) \<Longrightarrow>
   operatorsLoop ops s (Some st) = Some (r, st') \<Longrightarrow>
     \<exists>new. st' = Some (st @ new) \<and> sorted (map (\<lambda>x. precedence (stepOperator x)) new)
       \<and> (\<forall>x\<in>set new. stepOperator x \<in> symbol ` set ops)"
proof (induction ops arbitrary: s st)
  case Nil
  then have "st' = Some (st @ [])" by simp
  then show ?case by fastforce
next
  case (Cons op ops)
  obtain s1 st1 where b: "binLoop op s (Some st) = Some (s1, st1)"
    using binLoop_total [of op s "Some st"] by auto
  then obtain new1 where st1: "st1 = Some (st @ new1)"
    and new1: "\<forall>x\<in>set new1. stepOperator x = symbol op"
    using binLoop_trace by blast
  from Cons.prems(2) b st1 have "operatorsLoop ops s1 (Some (st @ new1)) = Some (r, st')"
    by simp
  moreover from Cons.prems(1) have "sorted (map (\<lambda>op. precedence (symbol op)) ops)"
    by simp
  ultimately obtain new2 where st': "st' = Some ((st @ new1) @ new2)"
    and sorted2: "sorted (map (\<lambda>x. precedence (stepOperator x)) new2)"
    and new2: "\<forall>x\<in>set new2. stepOperator x \<in> symbol ` set ops"
    using Cons.IH by blast
  have le: "precedence (symbol op) \<le> precedence (symbol op')" if "op' \<in> set ops" for op'
    using Cons.prems(1) that by auto
  have sorted1: "sorted (map (\<lambda>x. precedence (stepOperator x)) new1)"
    by (rule sorted_constant [where c = "precedence (symbol op)"]) (simp add: new1)
  have "precedence (stepOperator x) \<le> precedence (stepOperator y)"
    if "x \<in> set new1" and "y \<in> set new2" for x y
    using that new1 new2 le by auto
  then have "sorted (map (\<lambda>x. precedence (stepOperator x)) (new1 @ new2))"
    using sorted1 sorted2 by (auto simp: sorted_append)
  moreover have "\<forall>x\<in>set (new1 @ new2). stepOperator x \<in> symbol ` set (op # ops)"
    using new1 new2 by auto
  moreover have "st' = Some (st @ (new1 @ new2))"
    using st' by simp
  ultimately show ?case by blast
qed

lemma notLoop_untraced:
  "notLoop s st = Some (r, st') \<Longrightarrow> notLoop s None = Some (r, None)"
proof (induction s arbitrary: st rule: measure_induct_rule [where f = length])
  case (less s)
  show ?case
  proof (cases "includes_js s [NOT_symbol] \<and> fst (replaceNot s) \<noteq> s")
    case True
    with less.prems have
      "notLoop (fst (replaceNot s)) (pushAll st (snd (replaceNot s))) = Some (r, st')"
      by (subst (asm) notLoop.simps) (auto split: prod.splits)
    from less.IH [OF _ this] True
    have "notLoop (fst (replaceNot s)) None = Some (r, None)"
      by (simp add: replaceNot_changed_shorter)
    with True show ?thesis
      by (subst notLoop.simps) (auto simp: pushAll_def split: prod.splits)
  next
    case False
    with less.prems have "r = s"
      by (subst (asm) notLoop.simps) (auto split: prod.splits if_splits)
    with False show ?thesis
      by (subst notLoop.simps) (auto simp: pushAll_def split: prod.splits)
  qed
qed

lemma binLoop_untraced:
  "binLoop op s st = Some (r, st') \<Longrightarrow> binLoop op s None = Some (r, None)"
proof (induction s arbitrary: st rule: measure_induct_rule [where f = length])
  case (less s)
  show ?case
  proof (cases "matchBin op s \<and> fst (replaceBin op s) \<noteq> s")
    case True
    with less.prems have
      "binLoop op (fst (replaceBin op s)) (pushAll st (snd (replaceBin op s))) = Some (r, st')"
      by (subst (asm) binLoop.simps) (auto split: prod.splits)
    from less.IH [OF _ this] True
    have "binLoop op (fst (replaceBin op s)) None = Some (r, None)"
      by (simp add: replaceBin_changed_shorter)
    with True show ?thesis
      by (subst binLoop.simps) (auto simp: pushAll_def split: prod.splits)
  next
    case False
    with less.prems have "r = s"
      by (subst (asm) binLoop.simps) (auto split: prod.splits if_splits)
    with False show ?thesis
      by (subst binLoop.simps) (auto simp: pushAll_def split: prod.splits)
  qed
qed

lemma operatorsLoop_untraced:
  "operatorsLoop ops s st = Some (r, st') \<Longrightarrow> operatorsLoop ops s None = Some (r, None)"
proof (induction ops arbitrary: s st)
  case Nil
  then show ?case by simp
next
  case (Cons op ops)
  then obtain s1 st1 where b: "binLoop op s st = Some (s1, st1)"
    and rest: "operatorsLoop ops s1 st1 = Some (r, st')"
    by (auto split: option.splits)
  from binLoop_untraced [OF b] Cons.IH [OF rest] show ?case
    by simp
qed

lemma evaluateSubExpression_untraced:
  assumes "evaluateSubExpression s st = Some (b, st')"
  shows "evaluateSubExpression s None = Some (b, None)"
proof -
  obtain r1 st1 where n: "notLoop s st = Some (r1, st1)"
    using notLoop_total [of s st] by auto
  obtain r2 st2 where o: "operatorsLoop operatorOrder r1 st1 = Some (r2, st2)"
    using operatorsLoop_total [of operatorOrder r1 st1] by auto
  from assms n o have "b = (r2 = [49])"
    by (simp add: evaluateSubExpression_def)
  with notLoop_untraced [OF n] operatorsLoop_untraced [OF o] show ?thesis
    by (simp add: evaluateSubExpression_def)
qed

lemma symbol_not_digit: "\<not> isDigit (symbol op)"
  by (cases op) (simp_all add: isDigit_def)

lemma binaryOperator_not_digit: "isBinaryOperator c \<Longrightarrow> \<not> isDigit c"
  by (auto simp: isBinaryOperator_def operatorOrder_def isDigit_def)

lemma digit_not_NOT: "isDigit d \<Longrightarrow> d \<noteq> NOT_symbol"
  by (auto simp: isDigit_def NOT_symbol_def)

lemma negationsApplicable_Cons:
  "c \<noteq> NOT_symbol \<Longrightarrow> negationsApplicable (c # s) = negationsApplicable s"
  by (cases s) auto

lemma replaceNot_head:
  "\<exists>y ys. fst (replaceNot (NOT_symbol # s)) = y # ys \<and> (y = NOT_symbol \<or> isDigit y)"
  by (cases s) (auto simp: notCallback_def Let_def digit_def isDigit_def split: prod.splits)

lemma replaceNot_applicable:
  "negationsApplicable s \<Longrightarrow> negationsApplicable (fst (replaceNot s))"
proof (induction s rule: measure_induct_rule [where f = length])
  case (less s)
  consider "s = []" | c where "s = [c]" | c d rest where "s = c # d # rest"
    by (cases s rule: negationsApplicable.cases) auto
  then show ?case
  proof cases
    case 1
    then show ?thesis by simp
  next
    case 2
    with less.prems show ?thesis by simp
  next
    case 3
    show ?thesis
    proof (cases "c = NOT_symbol \<and> isDigit d")
      case True
      then have "negationsApplicable rest"
        using less.prems 3 by (simp add: negationsApplicable_Cons digit_not_NOT)
      then have "negationsApplicable (fst (replaceNot rest))"
        using less.IH [of rest] 3 by simp
      moreover have "fst (notCallback [c, d] d) \<noteq> NOT_symbol"
        by (simp add: notCallback_def Let_def digit_def NOT_symbol_def)
      ultimately show ?thesis
        using True 3 by (auto simp: negationsApplicable_Cons split: prod.splits)
    next
      case False
      have ih: "negationsApplicable (fst (replaceNot (d # rest)))"
        using less.IH [of "d # rest"] less.prems 3 by simp
      show ?thesis
      proof (cases "c = NOT_symbol")
        case c: True
        with False less.prems 3 have d: "d = NOT_symbol"
          by auto
        obtain y ys where y: "fst (replaceNot (NOT_symbol # rest)) = y # ys"
          and hd: "y = NOT_symbol \<or> isDigit y"
          using replaceNot_head [of rest] by blast
        with ih d c False 3 show ?thesis
          by (auto split: prod.splits)
      next
        case c: False
        with False ih 3 show ?thesis
          by (auto simp: negationsApplicable_Cons split: prod.splits)
      qed
    qed
  qed
qed

lemma matchNot_Cons: "matchNot s \<Longrightarrow> matchNot (c # s)"
  by (cases s) auto

lemma applicable_resolved:
  "negationsApplicable s \<Longrightarrow> \<not> matchNot s \<Longrightarrow> NOT_symbol \<notin> set s"
proof (induction s rule: negationsApplicable.induct)
  case 1
  show ?case by simp
next
  case (2 c)
  then show ?case by simp
next
  case (3 c d rest)
  then have "NOT_symbol \<notin> set (d # rest)"
    by auto
  moreover from this 3 have "c \<noteq> NOT_symbol"
    by auto
  ultimately show ?case by simp
qed

lemma notLoop_applicable:
  "notLoop s st = Some (r, st') \<Longrightarrow> negationsApplicable s \<Longrightarrow> negationsApplicable r"
proof (induction s arbitrary: st rule: measure_induct_rule [where f = length])
  case (less s)
  show ?case
  proof (cases "includes_js s [NOT_symbol] \<and> fst (replaceNot s) \<noteq> s")
    case True
    with less.prems(1) have
      "notLoop (fst (replaceNot s)) (pushAll st (snd (replaceNot s))) = Some (r, st')"
      by (subst (asm) notLoop.simps) (auto split: prod.splits)
    from less.IH [OF _ this replaceNot_applicable [OF less.prems(2)]] True
    show ?thesis
      by (simp add: replaceNot_changed_shorter)
  next
    case False
    with less.prems(1) have "r = s"
      by (subst (asm) notLoop.simps) (auto split: prod.splits if_splits)
    with less.prems(2) show ?thesis by simp
  qed
qed

lemma replaceBin_nondigit:
  "\<not> isDigit x \<Longrightarrow> fst (replaceBin op (x # s)) = x # fst (replaceBin op s)"
proof (cases s)
  case Nil
  then show ?thesis by simp
next
  case (Cons y ys)
  assume "\<not> isDigit x"
  then show ?thesis
    using Cons by (cases ys) (auto split: prod.splits)
qed

lemma alternating_head: "alternating s \<Longrightarrow> \<exists>d rest. s = d # rest \<and> isDigit d"
  by (cases s rule: alternating.cases) auto

lemma replaceBin_alternating:
  "alternating s \<Longrightarrow> alternating (fst (replaceBin op s))"
proof (induction s rule: measure_induct_rule [where f = length])
  case (less s)
  show ?case
  proof (cases s rule: alternating.cases)
    case 1
    with less.prems show ?thesis by simp
  next
    case (2 d)
    with less.prems show ?thesis by simp
  next
    case (3 d c rest)
    with less.prems have d: "isDigit d" and c: "isBinaryOperator c" and rest: "alternating rest"
      by auto
    from c have cnd: "\<not> isDigit c"
      by (rule binaryOperator_not_digit)
    obtain b rest' where br: "rest = b # rest'" and b: "isDigit b"
      using alternating_head [OF rest] by blast
    show ?thesis
    proof (cases "c = symbol op")
      case True
      have out: "fst (replaceBin op s) = fst (binCallback op [d, c, b] d b) # fst (replaceBin op rest')"
        using 3 br d b True by (simp split: prod.splits)
      have dig: "isDigit (fst (binCallback op [d, c, b] d b))"
        by (simp add: binCallback_def Let_def digit_def isDigit_def)
      show ?thesis
      proof (cases rest')
        case Nil
        with out dig show ?thesis by simp
      next
        case (Cons c2 rest2)
        with rest br have c2: "isBinaryOperator c2" and r2: "alternating rest2"
          by auto
        from c2 have "\<not> isDigit c2"
          by (rule binaryOperator_not_digit)
        then have "fst (replaceBin op rest') = c2 # fst (replaceBin op rest2)"
          using Cons by (simp add: replaceBin_nondigit)
        moreover have "alternating (fst (replaceBin op rest2))"
          using less.IH [of rest2] r2 3 br Cons by simp
        ultimately show ?thesis
          using out dig c2 by simp
      qed
    next
      case False
      have "fst (replaceBin op s) = d # fst (replaceBin op (c # rest))"
        using 3 br False by (simp split: prod.splits)
      also have "\<dots> = d # c # fst (replaceBin op rest)"
        using cnd by (simp add: replaceBin_nondigit)
      finally have out: "fst (replaceBin op s) = d # c # fst (replaceBin op rest)" .
      have "alternating (fst (replaceBin op rest))"
        using less.IH [of rest] rest 3 by simp
      with out d c show ?thesis by simp
    qed
  qed
qed

lemma matchBin_Cons: "matchBin op s \<Longrightarrow> matchBin op (c # s)"
proof (cases s)
  case Nil
  assume "matchBin op s"
  with Nil show ?thesis by simp
next
  case (Cons y ys)
  assume "matchBin op s"
  with Cons show ?thesis by (cases ys) auto
qed

lemma alternating_resolved:
  "alternating s \<Longrightarrow> \<not> matchBin op s \<Longrightarrow> symbol op \<notin> set s"
proof (induction s rule: alternating.induct)
  case 1
  then show ?case by simp
next
  case (2 d)
  then show ?case using symbol_not_digit [of op] by auto
next
  case (3 d c rest)
  then have d: "isDigit d" and rest: "alternating rest"
    by auto
  obtain b rest' where br: "rest = b # rest'" and b: "isDigit b"
    using alternating_head [OF rest] by blast
  have "\<not> matchBin op rest"
    using "3.prems"(2) matchBin_Cons [of op rest c] matchBin_Cons [of op "c # rest" d] by auto
  with "3.IH" rest have "symbol op \<notin> set rest"
    by simp
  moreover have "c \<noteq> symbol op"
    using "3.prems"(2) d b br by auto
  moreover have "d \<noteq> symbol op"
    using d symbol_not_digit [of op] by auto
  ultimately show ?case by simp
qed

lemma binLoop_alternating:
  "binLoop op s st = Some (r, st') \<Longrightarrow> alternating s \<Longrightarrow> alternating r"
proof (induction s arbitrary: st rule: measure_induct_rule [where f = length])
  case (less s)
  show ?case
  proof (cases "matchBin op s \<and> fst (replaceBin op s) \<noteq> s")
    case True
    with less.prems(1) have
      "binLoop op (fst (replaceBin op s)) (pushAll st (snd (replaceBin op s))) = Some (r, st')"
      by (subst (asm) binLoop.simps) (auto split: prod.splits)
    from less.IH [OF _ this replaceBin_alternating [OF less.prems(2)]] True
    show ?thesis
      by (simp add: replaceBin_changed_shorter)
  next
    case False
    with less.prems(1) have "r = s"
      by (subst (asm) binLoop.simps) (auto split: prod.splits if_splits)
    with less.prems(2) show ?thesis by simp
  qed
qed

section \<open>The value of a replacement\<close>

text \<open>
  What a pass puts in the place of a match is the value of the truth table, and the steps
  it records say so.
\<close>

lemma operators_truthTable: "operators op a b = truthTable op a b"
  by (cases op) simp_all

lemma notCallback_value: "fst (notCallback m v) = digit (v \<noteq> 49)"
  by (simp add: notCallback_def Let_def operator_NOT_def)

lemma binCallback_value: "fst (binCallback op m a b) = digit (truthTable op (a = 49) (b = 49))"
  by (simp add: binCallback_def Let_def operators_truthTable)

lemma replaceNot_equation:
  "fst (replaceNot (c # v # rest)) =
     (if c = NOT_symbol \<and> isDigit v then digit (v \<noteq> 49) # fst (replaceNot rest)
      else c # fst (replaceNot (v # rest)))"
  by (simp add: notCallback_value split: prod.splits)

lemma replaceBin_equation:
  "fst (replaceBin op (a # c # b # rest)) =
     (if isDigit a \<and> c = symbol op \<and> isDigit b
      then digit (truthTable op (a = 49) (b = 49)) # fst (replaceBin op rest)
      else a # fst (replaceBin op (c # b # rest)))"
  by (simp add: binCallback_value split: prod.splits)

lemma replaceNot_reduction: "x \<in> set (snd (replaceNot s)) \<Longrightarrow> reduction x"
proof (induction s rule: replaceNot.induct)
  case (1 c v rest)
  show ?case
  proof (cases "c = NOT_symbol \<and> isDigit v")
    case True
    have "reduction (snd (notCallback [c, v] v))"
      using True
      by (auto simp: reduction_def notCallback_def Let_def operator_NOT_def)
    with True "1.prems" "1.IH"(1) show ?thesis
      by (auto split: prod.splits)
  next
    case False
    with "1.prems" "1.IH"(2) show ?thesis
      by (auto split: prod.splits)
  qed
qed simp_all

lemma replaceBin_reduction: "x \<in> set (snd (replaceBin op s)) \<Longrightarrow> reduction x"
proof (induction op s rule: replaceBin.induct)
  case (1 op a c b rest)
  show ?case
  proof (cases "isDigit a \<and> c = symbol op \<and> isDigit b")
    case True
    have "reduction (snd (binCallback op [a, c, b] a b))"
      unfolding reduction_def
      using True
      by (intro disjI2 exI [of _ op] exI [of _ a] exI [of _ b])
         (simp add: binCallback_def Let_def operators_truthTable)
    with True "1.prems" "1.IH"(1) show ?thesis
      by (auto split: prod.splits)
  next
    case False
    with "1.prems" "1.IH"(2) show ?thesis
      by (auto split: prod.splits)
  qed
qed simp_all

lemma notLoop_reductions:
  "notLoop s (Some st) = Some (r, st') \<Longrightarrow>
     \<exists>new. st' = Some (st @ new) \<and> (\<forall>x\<in>set new. reduction x)"
proof (induction s arbitrary: st rule: measure_induct_rule [where f = length])
  case (less s)
  show ?case
  proof (cases "includes_js s [NOT_symbol]")
    case False
    with less.prems have "st' = Some (st @ [])"
      by (subst (asm) notLoop.simps) simp
    then show ?thesis by fastforce
  next
    case True
    show ?thesis
    proof (cases "fst (replaceNot s) = s")
      case same: True
      with True less.prems have "st' = Some (st @ snd (replaceNot s))"
        by (subst (asm) notLoop.simps) (auto simp: pushAll_def split: prod.splits)
      then show ?thesis
        using replaceNot_reduction by blast
    next
      case False
      with True less.prems have
        "notLoop (fst (replaceNot s)) (Some (st @ snd (replaceNot s))) = Some (r, st')"
        by (subst (asm) notLoop.simps) (auto simp: pushAll_def split: prod.splits)
      from less.IH [OF replaceNot_changed_shorter [OF False] this]
      obtain new where "st' = Some ((st @ snd (replaceNot s)) @ new)"
        and "\<forall>x\<in>set new. reduction x"
        by auto
      then have "st' = Some (st @ (snd (replaceNot s) @ new))"
        and "\<forall>x\<in>set (snd (replaceNot s) @ new). reduction x"
        using replaceNot_reduction by auto
      then show ?thesis by blast
    qed
  qed
qed

lemma binLoop_reductions:
  "binLoop op s (Some st) = Some (r, st') \<Longrightarrow>
     \<exists>new. st' = Some (st @ new) \<and> (\<forall>x\<in>set new. reduction x)"
proof (induction s arbitrary: st rule: measure_induct_rule [where f = length])
  case (less s)
  show ?case
  proof (cases "matchBin op s")
    case False
    with less.prems have "st' = Some (st @ [])"
      by (subst (asm) binLoop.simps) simp
    then show ?thesis by fastforce
  next
    case True
    then have changed: "fst (replaceBin op s) \<noteq> s"
      by (rule matchBin_changes)
    with True less.prems have
      "binLoop op (fst (replaceBin op s)) (Some (st @ snd (replaceBin op s))) = Some (r, st')"
      by (subst (asm) binLoop.simps) (auto simp: pushAll_def split: prod.splits)
    from less.IH [OF replaceBin_changed_shorter [OF changed] this]
    obtain new where "st' = Some ((st @ snd (replaceBin op s)) @ new)"
      and "\<forall>x\<in>set new. reduction x"
      by auto
    then have "st' = Some (st @ (snd (replaceBin op s) @ new))"
      and "\<forall>x\<in>set (snd (replaceBin op s) @ new). reduction x"
      using replaceBin_reduction by auto
    then show ?thesis by blast
  qed
qed

lemma operatorsLoop_reductions:
  "operatorsLoop ops s (Some st) = Some (r, st') \<Longrightarrow>
     \<exists>new. st' = Some (st @ new) \<and> (\<forall>x\<in>set new. reduction x)"
proof (induction ops arbitrary: s st)
  case Nil
  then have "st' = Some (st @ [])" by simp
  then show ?case by fastforce
next
  case (Cons op ops)
  obtain s1 st1 where b: "binLoop op s (Some st) = Some (s1, st1)"
    using binLoop_total [of op s "Some st"] by auto
  then obtain new1 where st1: "st1 = Some (st @ new1)"
    and new1: "\<forall>x\<in>set new1. reduction x"
    using binLoop_reductions by blast
  from Cons.prems b st1 have "operatorsLoop ops s1 (Some (st @ new1)) = Some (r, st')"
    by simp
  then obtain new2 where st': "st' = Some ((st @ new1) @ new2)"
    and new2: "\<forall>x\<in>set new2. reduction x"
    using Cons.IH by blast
  have "\<forall>x\<in>set (new1 @ new2). reduction x"
    using new1 new2 by auto
  moreover have "st' = Some (st @ (new1 @ new2))"
    using st' by simp
  ultimately show ?case by blast
qed

section \<open>Well-formed strings\<close>

text \<open>
  The negation loop keeps a well-formed string well formed and takes all its negation
  signs away; what is left is a digit followed by pairs of an operator and a digit, and
  the loops of the operators bring it down to a single digit.
\<close>

lemma replaceNot_other:
  "c \<noteq> NOT_symbol \<Longrightarrow> fst (replaceNot (c # s)) = c # fst (replaceNot s)"
  by (cases s) (auto split: prod.splits)

lemma wellFormed_NOT: "wellFormed (NOT_symbol # s) = wellFormed s"
  by (cases s) (simp_all add: isDigit_def NOT_symbol_def)

lemma wellFormed_digit:
  "isDigit c \<Longrightarrow>
     wellFormed (c # s) = (s = [] \<or> (\<exists>d rest. s = d # rest \<and> isBinaryOperator d \<and> wellFormed rest))"
  by (cases s) (auto simp: digit_not_NOT)

lemma wellFormed_head: "wellFormed (d # rest) \<Longrightarrow> d = NOT_symbol \<or> isDigit d"
  by (cases rest) (auto split: if_splits)

lemma binaryOperator_not_NOT: "isBinaryOperator c \<Longrightarrow> c \<noteq> NOT_symbol"
  by (auto simp: isBinaryOperator_def operatorOrder_def NOT_symbol_def)

lemma replaceNot_wellFormed: "wellFormed s \<Longrightarrow> wellFormed (fst (replaceNot s))"
proof (induction s rule: measure_induct_rule [where f = length])
  case (less s)
  consider "s = []" | c where "s = [c]" | c d rest where "s = c # d # rest"
    by (cases s rule: wellFormed.cases) auto
  then show ?case
  proof cases
    case 1
    with less.prems show ?thesis by simp
  next
    case 2
    with less.prems show ?thesis by simp
  next
    case 3
    show ?thesis
    proof (cases "c = NOT_symbol")
      case c: True
      then have wf: "wellFormed (d # rest)"
        using less.prems 3 by simp
      show ?thesis
      proof (cases "isDigit d")
        case True
        have v: "isDigit (digit (d \<noteq> 49))"
          by (simp add: digit_def isDigit_def)
        have out: "fst (replaceNot s) = digit (d \<noteq> 49) # fst (replaceNot rest)"
          unfolding 3 using c True by (subst replaceNot_equation) simp
        from wf True consider "rest = []"
          | b rest' where "rest = b # rest'" "isBinaryOperator b" "wellFormed rest'"
          by (auto simp: wellFormed_digit)
        then show ?thesis
        proof cases
          case 1
          with out v show ?thesis by simp
        next
          case 2
          have "wellFormed (fst (replaceNot rest'))"
            using less.IH [of rest'] 2 3 by simp
          moreover have "fst (replaceNot rest) = b # fst (replaceNot rest')"
            unfolding 2(1)
            using replaceNot_other [OF binaryOperator_not_NOT [OF 2(2)], of rest'] .
          ultimately show ?thesis
            using out v 2 digit_not_NOT [OF v] by simp
        qed
      next
        case False
        have out: "fst (replaceNot s) = NOT_symbol # fst (replaceNot (d # rest))"
          unfolding 3 using c False by (subst replaceNot_equation) simp
        have "wellFormed (fst (replaceNot (d # rest)))"
          using less.IH [of "d # rest"] wf 3 by simp
        with out show ?thesis
          by (simp add: wellFormed_NOT)
      qed
    next
      case c: False
      then have parts: "isDigit c" "isBinaryOperator d" "wellFormed rest"
        using less.prems 3 by auto
      have "fst (replaceNot s) = c # d # fst (replaceNot rest)"
        unfolding 3
        using replaceNot_other [OF c, of "d # rest"]
          replaceNot_other [OF binaryOperator_not_NOT [OF parts(2)], of rest]
        by (simp only:)
      moreover have "wellFormed (fst (replaceNot rest))"
        using less.IH [of rest] parts 3 by simp
      ultimately show ?thesis
        using parts c by simp
    qed
  qed
qed

lemma notLoop_wellFormed:
  "notLoop s st = Some (r, st') \<Longrightarrow> wellFormed s \<Longrightarrow> wellFormed r"
proof (induction s arbitrary: st rule: measure_induct_rule [where f = length])
  case (less s)
  show ?case
  proof (cases "includes_js s [NOT_symbol] \<and> fst (replaceNot s) \<noteq> s")
    case True
    with less.prems(1) have
      "notLoop (fst (replaceNot s)) (pushAll st (snd (replaceNot s))) = Some (r, st')"
      by (subst (asm) notLoop.simps) (auto split: prod.splits)
    from less.IH [OF _ this replaceNot_wellFormed [OF less.prems(2)]] True
    show ?thesis
      by (simp add: replaceNot_changed_shorter)
  next
    case False
    with less.prems(1) have "r = s"
      by (subst (asm) notLoop.simps) (auto split: prod.splits if_splits)
    with less.prems(2) show ?thesis by simp
  qed
qed

lemma wellFormed_applicable: "wellFormed s \<Longrightarrow> negationsApplicable s"
proof (induction s rule: wellFormed.induct)
  case 1
  then show ?case by simp
next
  case (2 c)
  then show ?case by (simp add: digit_not_NOT)
next
  case (3 c d rest)
  show ?case
  proof (cases "c = NOT_symbol")
    case True
    with 3 wellFormed_head [of d rest] show ?thesis by simp
  next
    case False
    with 3 have parts: "isBinaryOperator d" "wellFormed rest" "negationsApplicable rest"
      by auto
    then have "negationsApplicable (d # rest)"
      by (simp add: negationsApplicable_Cons binaryOperator_not_NOT)
    with False show ?thesis by simp
  qed
qed

lemma wellFormed_alternating: "wellFormed s \<Longrightarrow> NOT_symbol \<notin> set s \<Longrightarrow> alternating s"
  by (induction s rule: wellFormed.induct) (auto split: if_splits)

lemma replaceBin_set: "set (fst (replaceBin op s)) \<subseteq> set s \<union> {48, 49}"
  by (induction op s rule: replaceBin.induct)
     (auto simp: binCallback_def Let_def digit_def split: prod.splits if_splits)

lemma binLoop_set:
  "binLoop op s st = Some (r, st') \<Longrightarrow> set r \<subseteq> set s \<union> {48, 49}"
proof (induction s arbitrary: st rule: measure_induct_rule [where f = length])
  case (less s)
  show ?case
  proof (cases "matchBin op s \<and> fst (replaceBin op s) \<noteq> s")
    case True
    with less.prems have
      "binLoop op (fst (replaceBin op s)) (pushAll st (snd (replaceBin op s))) = Some (r, st')"
      by (subst (asm) binLoop.simps) (auto split: prod.splits)
    from less.IH [OF _ this] True have "set r \<subseteq> set (fst (replaceBin op s)) \<union> {48, 49}"
      by (simp add: replaceBin_changed_shorter)
    with replaceBin_set [of op s] show ?thesis by blast
  next
    case False
    with less.prems have "r = s"
      by (subst (asm) binLoop.simps) (auto split: prod.splits if_splits)
    then show ?thesis by auto
  qed
qed

lemma symbol_not_48_49: "symbol op \<noteq> 48" "symbol op \<noteq> 49"
  by (cases op; simp)+

lemma operatorsLoop_set:
  "operatorsLoop ops s st = Some (r, st') \<Longrightarrow> set r \<subseteq> set s \<union> {48, 49}"
proof (induction ops arbitrary: s st)
  case Nil
  then show ?case by auto
next
  case (Cons op ops)
  from Cons.prems obtain s1 st1 where b: "binLoop op s st = Some (s1, st1)"
    and rest: "operatorsLoop ops s1 st1 = Some (r, st')"
    by (auto split: option.splits)
  from binLoop_set [OF b] Cons.IH [OF rest] show ?case by blast
qed

lemma operatorsLoop_alternating:
  "operatorsLoop ops s st = Some (r, st') \<Longrightarrow> alternating s \<Longrightarrow>
     alternating r \<and> (\<forall>op\<in>set ops. symbol op \<notin> set r)"
proof (induction ops arbitrary: s st)
  case Nil
  then show ?case by simp
next
  case (Cons op ops)
  from Cons.prems(1) obtain s1 st1 where b: "binLoop op s st = Some (s1, st1)"
    and rest: "operatorsLoop ops s1 st1 = Some (r, st')"
    by (auto split: option.splits)
  have a1: "alternating s1"
    using binLoop_alternating [OF b Cons.prems(2)] .
  have "symbol op \<notin> set s1"
    using alternating_resolved [OF a1 binLoop_post [OF b]] .
  then have "symbol op \<notin> set r"
    using operatorsLoop_set [OF rest] symbol_not_48_49 [of op] by auto
  with Cons.IH [OF rest a1] show ?case by simp
qed

lemma alternating_single:
  "alternating s \<Longrightarrow> (\<And>op. symbol op \<notin> set s) \<Longrightarrow> \<exists>d. isDigit d \<and> s = [d]"
proof (cases s rule: alternating.cases)
  case 1
  assume "alternating s"
  with 1 show ?thesis by simp
next
  case (2 d)
  assume "alternating s"
  with 2 show ?thesis by simp
next
  case (3 d c rest)
  assume a: "alternating s" and none: "\<And>op. symbol op \<notin> set s"
  from a 3 have "isBinaryOperator c" by simp
  then obtain op where "c = symbol op"
    by (auto simp: isBinaryOperator_def)
  with none [of op] 3 show ?thesis by simp
qed

section \<open>The loops as sequences of replacements\<close>

lemma negationReplaced_Cons:
  "negationReplaced s out \<Longrightarrow> negationReplaced (c # s) (c # out)"
  by (cases s rule: replaceNot.cases) auto

lemma negationReplaced_rtranclp_Cons:
  "rtranclp negationReplaced s out \<Longrightarrow> rtranclp negationReplaced (c # s) (c # out)"
  by (induction rule: rtranclp_induct) (auto intro: rtranclp.rtrancl_into_rtrancl negationReplaced_Cons)

lemma replaceNot_replaced: "rtranclp negationReplaced s (fst (replaceNot s))"
proof (induction s rule: measure_induct_rule [where f = length])
  case (less s)
  consider "s = []" | c where "s = [c]" | c v rest where "s = c # v # rest"
    by (cases s rule: wellFormed.cases) auto
  then show ?case
  proof cases
    case 1
    then show ?thesis by simp
  next
    case 2
    then show ?thesis by simp
  next
    case 3
    show ?thesis
    proof (cases "c = NOT_symbol \<and> isDigit v")
      case True
      have out: "fst (replaceNot s) = digit (v \<noteq> 49) # fst (replaceNot rest)"
        unfolding 3 using True by (subst replaceNot_equation) simp
      have one: "negationReplaced s (digit (v \<noteq> 49) # rest)"
        using 3 True by simp
      have "rtranclp negationReplaced rest (fst (replaceNot rest))"
        using less.IH [of rest] 3 by simp
      then have "rtranclp negationReplaced (digit (v \<noteq> 49) # rest)
                   (digit (v \<noteq> 49) # fst (replaceNot rest))"
        by (rule negationReplaced_rtranclp_Cons)
      with one out show ?thesis
        by (simp add: converse_rtranclp_into_rtranclp)
    next
      case False
      have out: "fst (replaceNot s) = c # fst (replaceNot (v # rest))"
        unfolding 3 using False by (subst replaceNot_equation) auto
      have "rtranclp negationReplaced (v # rest) (fst (replaceNot (v # rest)))"
        using less.IH [of "v # rest"] 3 by simp
      then have "rtranclp negationReplaced (c # v # rest) (c # fst (replaceNot (v # rest)))"
        by (rule negationReplaced_rtranclp_Cons)
      with out 3 show ?thesis by simp
    qed
  qed
qed

lemma notLoop_replaced:
  "notLoop s st = Some (r, st') \<Longrightarrow> rtranclp negationReplaced s r"
proof (induction s arbitrary: st rule: measure_induct_rule [where f = length])
  case (less s)
  show ?case
  proof (cases "includes_js s [NOT_symbol] \<and> fst (replaceNot s) \<noteq> s")
    case True
    with less.prems have
      "notLoop (fst (replaceNot s)) (pushAll st (snd (replaceNot s))) = Some (r, st')"
      by (subst (asm) notLoop.simps) (auto split: prod.splits)
    from less.IH [OF _ this] True
    have "rtranclp negationReplaced (fst (replaceNot s)) r"
      by (simp add: replaceNot_changed_shorter)
    with replaceNot_replaced [of s] show ?thesis
      by (rule rtranclp_trans)
  next
    case False
    with less.prems have "r = s"
      by (subst (asm) notLoop.simps) (auto split: prod.splits if_splits)
    then show ?thesis by simp
  qed
qed

lemma operatorReplaced_Cons:
  "operatorReplaced op s out \<Longrightarrow> operatorReplaced op (c # s) (c # out)"
  by (cases "(op, s)" rule: replaceBin.cases) auto

lemma operatorReplaced_rtranclp_Cons:
  "rtranclp (operatorReplaced op) s out \<Longrightarrow> rtranclp (operatorReplaced op) (c # s) (c # out)"
  by (induction rule: rtranclp_induct)
     (auto intro: rtranclp.rtrancl_into_rtrancl operatorReplaced_Cons)

lemma replaceBin_replaced: "rtranclp (operatorReplaced op) s (fst (replaceBin op s))"
proof (induction s rule: measure_induct_rule [where f = length])
  case (less s)
  consider "length s < 3" | a c b rest where "s = a # c # b # rest"
    by (cases "(op, s)" rule: replaceBin.cases) auto
  then show ?case
  proof cases
    case 1
    then have "fst (replaceBin op s) = s"
      by (cases "(op, s)" rule: replaceBin.cases) auto
    then show ?thesis by simp
  next
    case 2
    show ?thesis
    proof (cases "isDigit a \<and> c = symbol op \<and> isDigit b")
      case True
      have out: "fst (replaceBin op s)
                 = digit (truthTable op (a = 49) (b = 49)) # fst (replaceBin op rest)"
        unfolding 2 using True by (subst replaceBin_equation) simp
      have one: "operatorReplaced op s (digit (truthTable op (a = 49) (b = 49)) # rest)"
        using 2 True by simp
      have "rtranclp (operatorReplaced op) rest (fst (replaceBin op rest))"
        using less.IH [of rest] 2 by simp
      then have "rtranclp (operatorReplaced op)
                   (digit (truthTable op (a = 49) (b = 49)) # rest)
                   (digit (truthTable op (a = 49) (b = 49)) # fst (replaceBin op rest))"
        by (rule operatorReplaced_rtranclp_Cons)
      with one out show ?thesis
        by (simp add: converse_rtranclp_into_rtranclp)
    next
      case False
      have out: "fst (replaceBin op s) = a # fst (replaceBin op (c # b # rest))"
        unfolding 2 using False by (subst replaceBin_equation) auto
      have "rtranclp (operatorReplaced op) (c # b # rest) (fst (replaceBin op (c # b # rest)))"
        using less.IH [of "c # b # rest"] 2 by simp
      then have "rtranclp (operatorReplaced op) (a # c # b # rest)
                   (a # fst (replaceBin op (c # b # rest)))"
        by (rule operatorReplaced_rtranclp_Cons)
      with out 2 show ?thesis by simp
    qed
  qed
qed

lemma binLoop_replaced:
  "binLoop op s st = Some (r, st') \<Longrightarrow> rtranclp (operatorReplaced op) s r"
proof (induction s arbitrary: st rule: measure_induct_rule [where f = length])
  case (less s)
  show ?case
  proof (cases "matchBin op s \<and> fst (replaceBin op s) \<noteq> s")
    case True
    with less.prems have
      "binLoop op (fst (replaceBin op s)) (pushAll st (snd (replaceBin op s))) = Some (r, st')"
      by (subst (asm) binLoop.simps) (auto split: prod.splits)
    from less.IH [OF _ this] True
    have "rtranclp (operatorReplaced op) (fst (replaceBin op s)) r"
      by (simp add: replaceBin_changed_shorter)
    with replaceBin_replaced [of op s] show ?thesis
      by (rule rtranclp_trans)
  next
    case False
    with less.prems have "r = s"
      by (subst (asm) binLoop.simps) (auto split: prod.splits if_splits)
    then show ?thesis by simp
  qed
qed

section \<open>The substitution of the variables\<close>

lemma name_inject: "name k = name v \<longleftrightarrow> k = v"
  by (cases k; cases v) simp_all

lemma name_not_special:
  "\<not> isDigit (name v)" "name v \<noteq> NOT_symbol" "name v \<noteq> symbol op" "name v \<noteq> 40"
  "name v \<noteq> digit b"
  by (cases v; cases op; simp add: isDigit_def NOT_symbol_def digit_def)+

lemma replaceVariable_absent: "v \<notin> set s \<Longrightarrow> replaceVariable v d p s = s"
  by (induction s arbitrary: p) auto

lemma replaceVariable_set: "set (replaceVariable v d p s) \<subseteq> insert d (set s)"
  by (induction s arbitrary: p) auto

lemma replaceVariable_keeps: "c \<in> set s \<Longrightarrow> c \<noteq> v \<Longrightarrow> c \<in> set (replaceVariable v d p s)"
  by (induction s arbitrary: p) auto

lemma substitute_absent: "name v \<notin> set s \<Longrightarrow> substitute t (s, ss) (v, b) = (s, ss)"
  by (simp add: replaceVariable_absent)

lemma substitute_new: "c \<notin> set s \<Longrightarrow> c \<noteq> digit x \<Longrightarrow> c \<notin> set (fst (substitute t (s, ss) (k, x)))"
  using replaceVariable_set [of "name k" "digit x" False s] by (auto simp: Let_def)

lemma substitute_keeps:
  "c \<in> set s \<Longrightarrow> c \<noteq> name k \<Longrightarrow> c \<in> set (fst (substitute t (s, ss) (k, x)))"
  by (simp add: Let_def replaceVariable_keeps)

lemma foldl_substitute_new:
  "c \<notin> set s \<Longrightarrow> c \<noteq> 48 \<Longrightarrow> c \<noteq> 49 \<Longrightarrow> c \<notin> set (fst (foldl (substitute t) (s, ss) a))"
proof (induction a arbitrary: s ss)
  case Nil
  then show ?case by simp
next
  case (Cons kx a)
  obtain k x where kx: "kx = (k, x)" by (cases kx)
  obtain s' ss' where step: "substitute t (s, ss) (k, x) = (s', ss')" by fastforce
  have "c \<noteq> digit x"
    using Cons.prems by (simp add: digit_def)
  with substitute_new [of c s x t ss k] Cons.prems(1) step have "c \<notin> set s'"
    by simp
  from Cons.IH [OF this Cons.prems(2,3)] kx step show ?case
    by simp
qed

lemma foldl_substitute_keeps:
  "c \<in> set s \<Longrightarrow> c \<notin> name ` fst ` set a \<Longrightarrow> c \<in> set (fst (foldl (substitute t) (s, ss) a))"
proof (induction a arbitrary: s ss)
  case Nil
  then show ?case by simp
next
  case (Cons kx a)
  obtain k x where kx: "kx = (k, x)" by (cases kx)
  obtain s' ss' where step: "substitute t (s, ss) (k, x) = (s', ss')" by fastforce
  have "c \<noteq> name k"
    using Cons.prems(2) kx by auto
  with substitute_keeps [of c s k t ss x] Cons.prems(1) step have "c \<in> set s'"
    by simp
  moreover have "c \<notin> name ` fst ` set a"
    using Cons.prems(2) by auto
  ultimately show ?case
    using Cons.IH kx step by simp
qed

lemma foldl_assign:
  "name v \<notin> set s \<Longrightarrow>
     foldl (substitute t) (s, ss) (assign v b a) = foldl (substitute t) (s, ss) a"
proof (induction a arbitrary: s ss)
  case Nil
  then show ?case by (simp add: replaceVariable_absent)
next
  case (Cons kx a)
  obtain k x where kx: "kx = (k, x)" by (cases kx)
  show ?case
  proof (cases "k = v")
    case True
    with Cons.prems kx show ?thesis
      by (simp add: replaceVariable_absent)
  next
    case False
    obtain s' ss' where step: "substitute t (s, ss) (k, x) = (s', ss')" by fastforce
    have "name v \<notin> set s'"
      using substitute_new [of "name v" s x t ss k] Cons.prems step
      by (simp add: name_not_special)
    from Cons.IH [OF this] False kx step show ?thesis
      by simp
  qed
qed

lemma fst_foldl_substitute:
  "fst (foldl (substitute t) (s, ss) a) = fst (foldl (substitute False) (s, None) a)"
proof (induction a arbitrary: s ss)
  case Nil
  show ?case by simp
next
  case (Cons kx a)
  obtain k x where kx: "kx = (k, x)" by (cases kx)
  show ?case
    using Cons.IH [of "replaceVariable (name k) (digit x) False s"] kx
    by (simp add: Let_def)
qed

lemma workingString_final:
  "fst (foldl (substitute t) (e, ss) a) = workingString e a (length a)"
  using fst_foldl_substitute [of t e ss a] by (simp add: workingString_def)

lemma replaceNot_keeps:
  "c \<in> set s \<Longrightarrow> \<not> isDigit c \<Longrightarrow> c \<noteq> NOT_symbol \<Longrightarrow> c \<in> set (fst (replaceNot s))"
  by (induction s rule: replaceNot.induct) (auto split: prod.splits)

lemma replaceBin_keeps:
  "c \<in> set s \<Longrightarrow> \<not> isDigit c \<Longrightarrow> c \<noteq> symbol op \<Longrightarrow> c \<in> set (fst (replaceBin op s))"
  by (induction op s rule: replaceBin.induct) (auto split: prod.splits)

lemma notLoop_keeps:
  "notLoop s st = Some (r, st') \<Longrightarrow> c \<in> set s \<Longrightarrow> \<not> isDigit c \<Longrightarrow> c \<noteq> NOT_symbol \<Longrightarrow>
     c \<in> set r"
proof (induction s arbitrary: st rule: measure_induct_rule [where f = length])
  case (less s)
  show ?case
  proof (cases "includes_js s [NOT_symbol] \<and> fst (replaceNot s) \<noteq> s")
    case True
    with less.prems(1) have
      "notLoop (fst (replaceNot s)) (pushAll st (snd (replaceNot s))) = Some (r, st')"
      by (subst (asm) notLoop.simps) (auto split: prod.splits)
    from less.IH [OF _ this replaceNot_keeps [OF less.prems(2,3,4)] less.prems(3,4)] True
    show ?thesis
      by (simp add: replaceNot_changed_shorter)
  next
    case False
    with less.prems(1) have "r = s"
      by (subst (asm) notLoop.simps) (auto split: prod.splits if_splits)
    with less.prems(2) show ?thesis by simp
  qed
qed

lemma binLoop_keeps:
  "binLoop op s st = Some (r, st') \<Longrightarrow> c \<in> set s \<Longrightarrow> \<not> isDigit c \<Longrightarrow> c \<noteq> symbol op \<Longrightarrow>
     c \<in> set r"
proof (induction s arbitrary: st rule: measure_induct_rule [where f = length])
  case (less s)
  show ?case
  proof (cases "matchBin op s \<and> fst (replaceBin op s) \<noteq> s")
    case True
    with less.prems(1) have
      "binLoop op (fst (replaceBin op s)) (pushAll st (snd (replaceBin op s))) = Some (r, st')"
      by (subst (asm) binLoop.simps) (auto split: prod.splits)
    from less.IH [OF _ this replaceBin_keeps [OF less.prems(2,3,4)] less.prems(3,4)] True
    show ?thesis
      by (simp add: replaceBin_changed_shorter)
  next
    case False
    with less.prems(1) have "r = s"
      by (subst (asm) binLoop.simps) (auto split: prod.splits if_splits)
    with less.prems(2) show ?thesis by simp
  qed
qed

lemma operatorsLoop_keeps:
  "operatorsLoop ops s st = Some (r, st') \<Longrightarrow> c \<in> set s \<Longrightarrow> \<not> isDigit c \<Longrightarrow>
     (\<And>op. c \<noteq> symbol op) \<Longrightarrow> c \<in> set r"
proof (induction ops arbitrary: s st)
  case Nil
  then show ?case by simp
next
  case (Cons op ops)
  from Cons.prems(1) obtain s1 st1 where b: "binLoop op s st = Some (s1, st1)"
    and rest: "operatorsLoop ops s1 st1 = Some (r, st')"
    by (auto split: option.splits)
  have "c \<in> set s1"
    using binLoop_keeps [OF b Cons.prems(2,3)] Cons.prems(4) by simp
  from Cons.IH [OF rest this Cons.prems(3)] Cons.prems(4) show ?case
    by simp
qed

lemma evaluateSubExpression_leftover:
  assumes "c \<in> set s" and "\<not> isDigit c" and "c \<noteq> NOT_symbol" and "\<And>op. c \<noteq> symbol op"
  shows "\<exists>st'. evaluateSubExpression s st = Some (False, st')"
proof -
  obtain r1 st1 where n: "notLoop s st = Some (r1, st1)"
    using notLoop_total [of s st] by auto
  obtain r2 st2 where o: "operatorsLoop operatorOrder r1 st1 = Some (r2, st2)"
    using operatorsLoop_total [of operatorOrder r1 st1] by auto
  have "c \<in> set r1"
    using notLoop_keeps [OF n assms(1,2,3)] .
  then have "c \<in> set r2"
    using operatorsLoop_keeps [OF o _ assms(2)] assms(4) by simp
  moreover have "c \<noteq> 49"
    using assms(2) by (auto simp: isDigit_def)
  ultimately have "r2 \<noteq> [49]"
    by auto
  with n o show ?thesis
    by (simp add: evaluateSubExpression_def)
qed

lemma parenLoop_no_paren: "40 \<notin> set s \<Longrightarrow> parenLoop t s st = Some (s, st)"
  by (subst parenLoop.simps) (simp add: includes_js_single)

lemma workingString_append:
  "i \<le> length a \<Longrightarrow> workingString e (a @ b) i = workingString e a i"
  by (simp add: workingString_def)

lemma workingString_Suc:
  "workingString e (a @ [(k, x)]) (Suc (length a)) =
     replaceVariable (name k) (digit x) False (workingString e a (length a))"
  by (cases "foldl (substitute False) (e, None) a") (simp add: workingString_def Let_def)

lemma changedEntries_snoc:
  "changedEntries e (a @ [kx]) =
     changedEntries e a @
       (if workingString e (a @ [kx]) (Suc (length a)) \<noteq> workingString e a (length a)
        then [length a] else [])"
proof -
  have "filter (\<lambda>i. workingString e (a @ [kx]) (Suc i) \<noteq> workingString e (a @ [kx]) i) [0..<length a]
      = filter (\<lambda>i. workingString e a (Suc i) \<noteq> workingString e a i) [0..<length a]"
    by (rule filter_cong) (simp_all add: workingString_append)
  then show ?thesis
    by (simp add: changedEntries_def workingString_append)
qed

lemma changedEntries_bound: "i \<in> set (changedEntries e a) \<Longrightarrow> i < length a"
  by (simp add: changedEntries_def)

lemma foldl_substitute_trace:
  "foldl (substitute True) (e, Some st0) a =
     (workingString e a (length a),
      Some (st0 @ map (\<lambda>i. substitutionStep (a ! i) (workingString e a (Suc i)))
                    (changedEntries e a)))"
proof (induction a rule: rev_induct)
  case Nil
  show ?case by (simp add: workingString_def changedEntries_def)
next
  case (snoc kx a)
  obtain k x where kx: "kx = (k, x)" by (cases kx)
  have old: "map (\<lambda>i. substitutionStep ((a @ [kx]) ! i) (workingString e (a @ [kx]) (Suc i)))
               (changedEntries e a)
           = map (\<lambda>i. substitutionStep (a ! i) (workingString e a (Suc i))) (changedEntries e a)"
    by (rule map_cong)
       (auto dest: changedEntries_bound simp: workingString_append nth_append)
  show ?case
    using snoc.IH old
    by (simp add: kx changedEntries_snoc workingString_Suc Let_def pushAll_def
          substitutionStep_def)
qed

lemma parenLoop_trace:
  "parenLoop t s (Some st) = Some (r, st') \<Longrightarrow> \<exists>new. st' = Some (st @ new)"
proof (induction s arbitrary: st rule: measure_induct_rule [where f = "\<lambda>s. count_list s (40::nat)"])
  case (less s)
  obtain out pushed where rp: "replaceParens t s = Some (out, pushed)"
    using replaceParens_total [of t s] by auto
  show ?case
  proof (cases "includes_js s [40] \<and> out \<noteq> s")
    case True
    with less.prems rp have "parenLoop t out (Some (st @ pushed)) = Some (r, st')"
      by (subst (asm) parenLoop.simps) (auto simp: pushAll_def)
    from less.IH [OF _ this] True rp obtain new where "st' = Some ((st @ pushed) @ new)"
      using replaceParens_changed_fewer by blast
    then show ?thesis by simp
  next
    case False
    with less.prems rp have "st' = Some (st @ pushed) \<or> st' = Some st"
      by (subst (asm) parenLoop.simps) (auto simp: pushAll_def split: if_splits)
    then show ?thesis by auto
  qed
qed

lemma evaluateSubExpression_trace:
  assumes "evaluateSubExpression s (Some st) = Some (b, st')"
  shows "\<exists>new. st' = Some (st @ new)"
proof -
  obtain r1 st1 where n: "notLoop s (Some st) = Some (r1, st1)"
    using notLoop_total [of s "Some st"] by auto
  then obtain new1 where st1: "st1 = Some (st @ new1)"
    using notLoop_trace by blast
  obtain r2 st2 where o: "operatorsLoop operatorOrder r1 (Some (st @ new1)) = Some (r2, st2)"
    using operatorsLoop_total [of operatorOrder r1 "Some (st @ new1)"] by auto
  have "sorted (map (\<lambda>op. precedence (symbol op)) operatorOrder)"
    by (simp add: precedence_def operatorOrder_def NOT_symbol_def)
  from operatorsLoop_trace [OF this o] obtain new2 where "st2 = Some ((st @ new1) @ new2)"
    by blast
  with assms n st1 o show ?thesis
    by (auto simp: evaluateSubExpression_def)
qed

section \<open>The parenthesis loop with and without a trace\<close>

text \<open>The trace does not change the strings: the parenthesis loop gives the same string
  whether the steps are recorded or not.\<close>

lemma parenCallback_untraced:
  assumes "parenCallback t m sub = Some (d, p)"
  shows "parenCallback False m sub = Some (d, [])"
proof -
  obtain b st' where e: "evaluateSubExpression sub (if t then Some [] else None) = Some (b, st')"
    using evaluateSubExpression_total [of sub "if t then Some [] else None"] by auto
  from evaluateSubExpression_untraced [OF e] e assms show ?thesis
    by (auto simp: parenCallback_def split: if_splits)
qed

lemma replaceParens_untraced:
  "replaceParens t s = Some (out, p) \<Longrightarrow> replaceParens False s = Some (out, [])"
proof (induction t s arbitrary: out p rule: replaceParens.induct)
  case (1 t)
  then show ?case by simp
next
  case (2 t c rest)
  show ?case
  proof (cases "c = 40 \<and> takeWhile notParen rest \<noteq> [] \<and> take 1 (dropWhile notParen rest) = [41]")
    case True
    then obtain d p1 out' p2 where cb:
      "parenCallback t ([40] @ takeWhile notParen rest @ [41]) (takeWhile notParen rest) = Some (d, p1)"
      and rec: "replaceParens t (drop 1 (dropWhile notParen rest)) = Some (out', p2)"
      and out: "out = d # out'"
      using "2.prems" by (auto split: option.splits)
    from "2.IH"(1) [OF True cb refl rec] parenCallback_untraced [OF cb] True out
    show ?thesis by simp
  next
    case False
    then obtain out' where rec: "replaceParens t rest = Some (out', p)" and out: "out = c # out'"
      using "2.prems" by (auto split: option.splits)
    from "2.IH"(2) [OF False rec] False out show ?thesis by auto
  qed
qed

lemma parenLoop_untraced:
  "parenLoop t s st = Some (r, st') \<Longrightarrow> parenLoop False s None = Some (r, None)"
proof (induction s arbitrary: st rule: measure_induct_rule [where f = "\<lambda>s. count_list s (40::nat)"])
  case (less s)
  obtain out pushed where rp: "replaceParens t s = Some (out, pushed)"
    using replaceParens_total [of t s] by auto
  note rp' = replaceParens_untraced [OF rp]
  show ?case
  proof (cases "includes_js s [40] \<and> out \<noteq> s")
    case True
    with less.prems rp have "parenLoop t out (pushAll st pushed) = Some (r, st')"
      by (subst (asm) parenLoop.simps) auto
    from less.IH [OF _ this] True rp have "parenLoop False out None = Some (r, None)"
      using replaceParens_changed_fewer by blast
    with True rp' show ?thesis
      by (subst parenLoop.simps) (auto simp: pushAll_def)
  next
    case False
    with less.prems rp have "r = s"
      by (subst (asm) parenLoop.simps) (auto split: if_splits)
    with False rp' show ?thesis
      by (subst parenLoop.simps) (auto simp: pushAll_def)
  qed
qed

section \<open>Substrings and insertion-ordered sets\<close>

lemma includes_js_iff: "includes_js s v \<longleftrightarrow> (\<exists>pre suf. s = pre @ v @ suf)"
proof (induction s)
  case Nil
  show ?case by auto
next
  case (Cons c cs)
  show ?case
  proof
    assume "includes_js (c # cs) v"
    then consider "take (length v) (c # cs) = v" | "includes_js cs v"
      by auto
    then show "\<exists>pre suf. c # cs = pre @ v @ suf"
    proof cases
      case 1
      then have "c # cs = [] @ v @ drop (length v) (c # cs)"
        by (metis append_Nil append_take_drop_id)
      then show ?thesis by blast
    next
      case 2
      then obtain pre suf where "cs = pre @ v @ suf"
        using Cons.IH by auto
      then have "c # cs = (c # pre) @ v @ suf"
        by simp
      then show ?thesis by blast
    qed
  next
    assume "\<exists>pre suf. c # cs = pre @ v @ suf"
    then obtain pre suf where eq: "c # cs = pre @ v @ suf"
      by auto
    show "includes_js (c # cs) v"
    proof (cases pre)
      case Nil
      with eq have "take (length v) (c # cs) = v"
        by simp
      then show ?thesis by simp
    next
      case (Cons p pre')
      with eq have "cs = pre' @ v @ suf"
        by simp
      then have "includes_js cs v"
        using Cons.IH by auto
      then show ?thesis by simp
    qed
  qed
qed

lemma set_foldl_setAdd: "set (foldl setAdd acc xs) = set acc \<union> set xs"
  by (induction xs arbitrary: acc) (auto simp: setAdd_def)

lemma distinct_foldl_setAdd: "distinct acc \<Longrightarrow> distinct (foldl setAdd acc xs)"
  by (induction xs arbitrary: acc) (auto simp: setAdd_def)

lemma set_newSet: "set (newSet xs) = set xs"
  by (simp add: newSet_def set_foldl_setAdd)

lemma distinct_newSet: "distinct (newSet xs)"
  by (simp add: newSet_def distinct_foldl_setAdd)

section \<open>The rows of the combination generator\<close>

text \<open>
  For up to 32 variables, row \<open>i\<close> holds at position \<open>j\<close> the bit \<open>j\<close> of \<open>i\<close>: the least
  significant bit comes first.
\<close>

lemma combinationLoop_eq: "combinationLoop i j acc = map (bitTest i) [0..<j] @ acc"
  by (induction j arbitrary: acc) simp_all

lemma rowsLoop_eq:
  "rowsLoop i t n c = c @ map (\<lambda>k. combinationLoop k n []) [i..<t]"
proof (induction i t n c rule: rowsLoop.induct)
  case (1 i t n c)
  show ?case
  proof (cases "i < t")
    case True
    with 1 show ?thesis
      by (simp add: upt_conv_Cons)
  next
    case False
    then show ?thesis by simp
  qed
qed

lemma bitTest_bit: "j < 32 \<Longrightarrow> bitTest i j = bit i j"
proof -
  assume j: "j < 32"
  have "bitTest i j = (and (word_of_nat i :: 32 word) (2 ^ j) \<noteq> 0)"
    using j by (simp add: bitTest_def push_bit_of_1)
  also have "\<dots> = bit (word_of_nat i :: 32 word) j"
    by (simp add: and_exp_eq_0_iff_not_bit)
  also have "\<dots> = bit i j"
    using j by (simp add: bit_of_nat_iff possible_bit_word)
  finally show ?thesis .
qed

lemma generateCombinations_rows:
  "length vars \<le> 32 \<Longrightarrow>
     generateCombinations vars =
       map (\<lambda>i. map (\<lambda>j. bit i j) [0..<length vars]) [0..<2 ^ length vars]"
proof -
  assume n: "length vars \<le> 32"
  have "map (bitTest i) [0..<length vars] = map (\<lambda>j. bit i j) [0..<length vars]" for i
    using n by (intro map_cong) (simp_all add: bitTest_bit)
  then show ?thesis
    by (simp add: generateCombinations_def Let_def rowsLoop_eq combinationLoop_eq)
qed

section \<open>The combination generator\<close>

text \<open>
  Claim C10. For the empty variable list \<open>generateCombinations\<close> returns \<open>[[]]\<close>: one
  row (\<open>2^0 = 1\<close>), which is the empty sequence.
\<close>

theorem generateCombinations_empty:
  "generateCombinations [] = [[]]"
  by (simp add: generateCombinations_def)

text \<open>
  Claim C1. The claim asks for row \<open>i\<close> to hold the bits of \<open>i\<close> most-significant bit
  first, so that the rows for \<open>["p", "q"]\<close> are FF, FT, TF, TT; the comment of the function
  says the same. The loop runs \<open>j\<close> from the most significant bit down and puts each bit
  at the front of the row, so the least significant bit ends up first: the rows the code
  returns are FF, TF, FT, TT.
\<close>

theorem generateCombinations_pq:
  "generateCombinations [str ''p'', str ''q''] =
     [[False, False], [True, False], [False, True], [True, True]]"
  by (simp add: generateCombinations_def bitTest_def)

section \<open>The variable extractor\<close>

text \<open>
  Claim C8. For every expression, \<open>extractVariables\<close> returns a sorted list without
  duplicates whose elements are exactly the symbols of the alphabet \<open>{p, q, r, x, y, z}\<close>
  that occur as substrings of the expression. For \<open>"p \<or> (q \<and> r)"\<close> it returns
  \<open>["p", "q", "r"]\<close>, and for \<open>"p \<and> p \<or> q"\<close> it returns \<open>["p", "q"]\<close>.
\<close>

theorem extractVariables_sorted_distinct:
  "sorted (extractVariables e) \<and> distinct (extractVariables e)
   \<and> set (extractVariables e) = {v \<in> set VARIABLES. \<exists>pre suf. e = pre @ v @ suf}
   \<and> extractVariables (str ''p '' @ [symbol OR] @ str '' (q '' @ [symbol AND] @ str '' r)'')
       = [str ''p'', str ''q'', str ''r'']
   \<and> extractVariables (str ''p '' @ [symbol AND] @ str '' p '' @ [symbol OR] @ str '' q'')
       = [str ''p'', str ''q'']"
proof -
  have "sorted (extractVariables e)"
    by (simp add: extractVariables_def)
  moreover have "distinct (extractVariables e)"
    by (simp add: extractVariables_def distinct_newSet)
  moreover have "set (extractVariables e) = {v \<in> set VARIABLES. \<exists>pre suf. e = pre @ v @ suf}"
  proof -
    have "set (extractVariables e) = {v \<in> set VARIABLES. includes_js e v}"
      by (auto simp: extractVariables_def VARIABLES_def set_newSet)
    then show ?thesis
      by (simp only: includes_js_iff)
  qed
  moreover have "extractVariables (str ''p '' @ [symbol OR] @ str '' (q '' @ [symbol AND] @ str '' r)'')
       = [str ''p'', str ''q'', str ''r'']"
    by (simp add: extractVariables_def newSet_def setAdd_def str_def)
  moreover have "extractVariables (str ''p '' @ [symbol AND] @ str '' p '' @ [symbol OR] @ str '' q'')
       = [str ''p'', str ''q'']"
    by (simp add: extractVariables_def newSet_def setAdd_def str_def)
  ultimately show ?thesis by blast
qed

section \<open>The evaluator\<close>

text \<open>
  Claim C4. For every expression and every assignment, so also for a valid expression and
  a total assignment, \<open>evaluateExpression\<close> returns, and what it returns holds one
  boolean. A parenthesis pass that replaces something lowers the number of opening
  parentheses, and one that replaces nothing ends its loop. A negation pass that replaces
  something shortens the string, and one that replaces nothing ends its loop. A binary pass
  runs only when its pattern occurs, and then it shortens the string; when the pattern
  does not occur the loop is over.
\<close>

theorem evaluateExpression_terminates:
  "(\<exists>r. evaluateExpression e a t = Some r)
   \<and> (replaceParens t s1 = Some (out, pushed) \<and> out \<noteq> s1 \<longrightarrow>
        count_list out 40 < count_list s1 40)
   \<and> (replaceParens t s2 = Some (s2, pushed2) \<longrightarrow> parenLoop t s2 st = Some (s2, st))
   \<and> (fst (replaceNot s3) \<noteq> s3 \<longrightarrow> length (fst (replaceNot s3)) < length s3)
   \<and> (fst (replaceNot s4) = s4 \<longrightarrow> notLoop s4 st = Some (s4, st))
   \<and> (matchBin op s5 \<longrightarrow> length (fst (replaceBin op s5)) < length s5)
   \<and> (\<not> matchBin op s6 \<longrightarrow> binLoop op s6 st = Some (s6, st))"
  using evaluateExpression_total replaceParens_changed_fewer parenLoop_abort
    replaceNot_changed_shorter notLoop_abort matchBin_shorter binLoop_done
  by blast

theorem evaluateExpression_terminates_witness:
  "(\<exists>r. evaluateExpression (Some (str ''(p)'')) [(P, True)] False = Some r)
   \<and> replaceParens False [40, 49, 41] = Some ([49], []) \<and> [49] \<noteq> [40, 49, 41::nat]
   \<and> count_list [49] (40::nat) < count_list [40, 49, 41] (40::nat)
   \<and> replaceParens False [40, 41] = Some ([40, 41], [])
   \<and> parenLoop False [40, 41] None = Some ([40, 41], None)
   \<and> fst (replaceNot [172, 49]) \<noteq> [172, 49]
   \<and> length (fst (replaceNot [172, 49])) < length [172, 49::nat]
   \<and> fst (replaceNot [172]) = [172] \<and> notLoop [172] None = Some ([172], None)
   \<and> matchBin AND [49, 8743, 49]
   \<and> length (fst (replaceBin AND [49, 8743, 49])) < length [49, 8743, 49::nat]
   \<and> \<not> matchBin AND [49, 8744, 49]
   \<and> binLoop AND [49, 8744, 49] None = Some ([49, 8744, 49], None)"
  using evaluateExpression_terminates [where e = "Some (str ''(p)'')" and a = "[(P, True)]"
      and t = False and ?s1.0 = "[40, 49, 41]" and out = "[49]" and pushed = "[]"
      and ?s2.0 = "[40, 41]" and ?pushed2.0 = "[]" and st = None and ?s3.0 = "[172, 49]"
      and ?s4.0 = "[172]" and op = AND and ?s5.0 = "[49, 8743, 49]" and ?s6.0 = "[49, 8744, 49]"]
  by (simp add: eval_defs)

text \<open>
  Claim C5. For an absent or empty expression, any assignment and either value of the
  trace flag, \<open>evaluateExpression\<close> returns \<open>{result: false, steps: []}\<close> and nothing
  else.
\<close>

theorem evaluateExpression_empty:
  "evaluateExpression None a t =
     Some \<lparr>result = False, steps = [], substitutionSteps = None, expression = None\<rparr>
   \<and> evaluateExpression (Some []) a t =
     Some \<lparr>result = False, steps = [], substitutionSteps = None, expression = None\<rparr>"
  by (simp add: evaluateExpression_def)

text \<open>
  Claim C3, as amended. On a string without parentheses, \<open>evaluateSubExpression\<close> first
  runs the negation loop. The loop reaches its string by replacements of a negation sign
  and the digit right behind it by the negated digit, and it stops when no negation sign
  is left in front of a digit. Then come the loops of the binary operators in the fixed
  order AND, OR, NAND, NOR, XOR, XNOR, IMPLICATION, each on the string the loop before it
  has produced. The loop of an operator reaches its string by replacements of a digit,
  the operator and a digit by the value of the truth table of the operator at the two
  digits, and it stops when no digit-operator-digit occurrence of its operator is left;
  only then is the next operator touched. The result is true exactly when the last
  string is \<open>"1"\<close>, and it is the same with and without a trace. The steps of a trace
  record these replacements, each with the text of its match and the character that has
  replaced it, and their operators never go back in the order of evaluation: every
  replacement of a negation comes before every replacement of AND, every replacement of
  AND before every replacement of OR, and so on down the list, wherever in the string
  they are.

  Nothing but these occurrences is ever replaced, so a negation sign or an operator can
  stay in the string. No negation sign is left after the negation loop when every
  negation sign of the string has a negation sign or a digit behind it. When the string
  is well formed (operands separated by single binary operators, an operand being a
  digit with any number of negation signs in front of it), no negation sign is left
  after the negation loop, the operator of each loop is gone from the string after its
  loop, and the last string is a single digit.

  In particular a negation sign and a digit evaluate to the negation of the digit, and
  a digit, an operator and a digit evaluate to the value of the truth table; the digits
  are the characters \<open>'0'\<close> and \<open>'1'\<close>. The witness evaluates \<open>NOT 0 OR 1 AND 0\<close>
  (written without blanks): the negation is replaced first, the conjunction on the right
  second, the disjunction on the left last.
\<close>

theorem evaluateSubExpression_precedence:
  "(\<exists>r0 t0 r1 t1 r2 t2 r3 t3 r4 t4 r5 t5 r6 t6 r7 new.
       notLoop s (Some st) = Some (r0, t0)
     \<and> rtranclp negationReplaced s r0 \<and> \<not> matchNot r0
     \<and> binLoop AND r0 t0 = Some (r1, t1)
     \<and> rtranclp (operatorReplaced AND) r0 r1 \<and> \<not> matchBin AND r1
     \<and> binLoop OR r1 t1 = Some (r2, t2)
     \<and> rtranclp (operatorReplaced OR) r1 r2 \<and> \<not> matchBin OR r2
     \<and> binLoop NAND r2 t2 = Some (r3, t3)
     \<and> rtranclp (operatorReplaced NAND) r2 r3 \<and> \<not> matchBin NAND r3
     \<and> binLoop NOR r3 t3 = Some (r4, t4)
     \<and> rtranclp (operatorReplaced NOR) r3 r4 \<and> \<not> matchBin NOR r4
     \<and> binLoop XOR r4 t4 = Some (r5, t5)
     \<and> rtranclp (operatorReplaced XOR) r4 r5 \<and> \<not> matchBin XOR r5
     \<and> binLoop XNOR r5 t5 = Some (r6, t6)
     \<and> rtranclp (operatorReplaced XNOR) r5 r6 \<and> \<not> matchBin XNOR r6
     \<and> binLoop IMPLICATION r6 t6 = Some (r7, Some (st @ new))
     \<and> rtranclp (operatorReplaced IMPLICATION) r6 r7 \<and> \<not> matchBin IMPLICATION r7
     \<and> evaluateSubExpression s (Some st) = Some (r7 = [49], Some (st @ new))
     \<and> evaluateSubExpression s None = Some (r7 = [49], None)
     \<and> sorted (map (\<lambda>x. precedence (stepOperator x)) new)
     \<and> (\<forall>x\<in>set new. reduction x)
     \<and> (negationsApplicable s \<longrightarrow> NOT_symbol \<notin> set r0)
     \<and> (wellFormed s \<longrightarrow>
           NOT_symbol \<notin> set r0 \<and> symbol AND \<notin> set r1 \<and> symbol OR \<notin> set r2
         \<and> symbol NAND \<notin> set r3 \<and> symbol NOR \<notin> set r4 \<and> symbol XOR \<notin> set r5
         \<and> symbol XNOR \<notin> set r6 \<and> symbol IMPLICATION \<notin> set r7
         \<and> (\<exists>d. isDigit d \<and> r7 = [d])))
   \<and> evaluateSubExpression [NOT_symbol, digit x] None = Some (\<not> x, None)
   \<and> evaluateSubExpression [digit x, symbol op, digit y] None = Some (truthTable op x y, None)
   \<and> operatorOrder = [AND, OR, NAND, NOR, XOR, XNOR, IMPLICATION]
   \<and> map precedence (NOT_symbol # map symbol operatorOrder) = [0, 1, 2, 3, 4, 5, 6, 7]
   \<and> (isDigit c \<longleftrightarrow> c \<in> set (str ''01''))"
proof -
  obtain r0 t0 where n: "notLoop s (Some st) = Some (r0, t0)"
    using notLoop_total [of s "Some st"] by auto
  obtain r1 t1 where b1: "binLoop AND r0 t0 = Some (r1, t1)"
    using binLoop_total [of AND r0 t0] by auto
  obtain r2 t2 where b2: "binLoop OR r1 t1 = Some (r2, t2)"
    using binLoop_total [of OR r1 t1] by auto
  obtain r3 t3 where b3: "binLoop NAND r2 t2 = Some (r3, t3)"
    using binLoop_total [of NAND r2 t2] by auto
  obtain r4 t4 where b4: "binLoop NOR r3 t3 = Some (r4, t4)"
    using binLoop_total [of NOR r3 t3] by auto
  obtain r5 t5 where b5: "binLoop XOR r4 t4 = Some (r5, t5)"
    using binLoop_total [of XOR r4 t4] by auto
  obtain r6 t6 where b6: "binLoop XNOR r5 t5 = Some (r6, t6)"
    using binLoop_total [of XNOR r5 t5] by auto
  obtain r7 t7 where b7: "binLoop IMPLICATION r6 t6 = Some (r7, t7)"
    using binLoop_total [of IMPLICATION r6 t6] by auto
  have o: "operatorsLoop operatorOrder r0 t0 = Some (r7, t7)"
    using b1 b2 b3 b4 b5 b6 b7 by (simp add: operatorOrder_def)
  obtain new1 where t0: "t0 = Some (st @ new1)"
    and new1: "\<forall>x\<in>set new1. stepOperator x = NOT_symbol"
    using notLoop_trace [OF n] by blast
  have red1: "\<forall>x\<in>set new1. reduction x"
    using notLoop_reductions [OF n] t0 by simp
  have "sorted (map (\<lambda>op. precedence (symbol op)) operatorOrder)"
    by (simp add: precedence_def operatorOrder_def NOT_symbol_def)
  from operatorsLoop_trace [OF this o [unfolded t0]]
  obtain new2 where t7: "t7 = Some ((st @ new1) @ new2)"
    and sorted2: "sorted (map (\<lambda>x. precedence (stepOperator x)) new2)"
    by blast
  have red2: "\<forall>x\<in>set new2. reduction x"
    using operatorsLoop_reductions [OF o [unfolded t0]] t7 by simp
  have sorted1: "sorted (map (\<lambda>x. precedence (stepOperator x)) new1)"
    by (rule sorted_constant [where c = "precedence NOT_symbol"]) (simp add: new1)
  have "precedence (stepOperator x) = 0" if "x \<in> set new1" for x
    using that new1 by (simp add: precedence_def)
  then have sorted12: "sorted (map (\<lambda>x. precedence (stepOperator x)) (new1 @ new2))"
    using sorted1 sorted2 by (auto simp: sorted_append)
  have red12: "\<forall>x\<in>set (new1 @ new2). reduction x"
    using red1 red2 by auto
  have e: "evaluateSubExpression s (Some st) = Some (r7 = [49], Some (st @ (new1 @ new2)))"
    using n o t7 by (simp add: evaluateSubExpression_def)
  have b7': "binLoop IMPLICATION r6 t6 = Some (r7, Some (st @ (new1 @ new2)))"
    using b7 t7 by simp
  have none_left: "negationsApplicable s \<longrightarrow> NOT_symbol \<notin> set r0"
    using notLoop_applicable [OF n] notLoop_post [OF n] applicable_resolved by blast
  have formed: "NOT_symbol \<notin> set r0 \<and> symbol AND \<notin> set r1 \<and> symbol OR \<notin> set r2
         \<and> symbol NAND \<notin> set r3 \<and> symbol NOR \<notin> set r4 \<and> symbol XOR \<notin> set r5
         \<and> symbol XNOR \<notin> set r6 \<and> symbol IMPLICATION \<notin> set r7
         \<and> (\<exists>d. isDigit d \<and> r7 = [d])" if wf: "wellFormed s"
  proof -
    have no: "NOT_symbol \<notin> set r0"
      using none_left wellFormed_applicable [OF wf] by simp
    have a0: "alternating r0"
      using wellFormed_alternating [OF notLoop_wellFormed [OF n wf] no] .
    have a1: "alternating r1" using binLoop_alternating [OF b1 a0] .
    have a2: "alternating r2" using binLoop_alternating [OF b2 a1] .
    have a3: "alternating r3" using binLoop_alternating [OF b3 a2] .
    have a4: "alternating r4" using binLoop_alternating [OF b4 a3] .
    have a5: "alternating r5" using binLoop_alternating [OF b5 a4] .
    have a6: "alternating r6" using binLoop_alternating [OF b6 a5] .
    have a7: "alternating r7" using binLoop_alternating [OF b7 a6] .
    have all: "\<forall>op\<in>set operatorOrder. symbol op \<notin> set r7"
      using operatorsLoop_alternating [OF o a0] by simp
    have "symbol op \<notin> set r7" for op
      using all by (cases op) (simp_all add: operatorOrder_def)
    from alternating_single [OF a7 this] have single: "\<exists>d. isDigit d \<and> r7 = [d]" .
    from no single
      alternating_resolved [OF a1 binLoop_post [OF b1]]
      alternating_resolved [OF a2 binLoop_post [OF b2]]
      alternating_resolved [OF a3 binLoop_post [OF b3]]
      alternating_resolved [OF a4 binLoop_post [OF b4]]
      alternating_resolved [OF a5 binLoop_post [OF b5]]
      alternating_resolved [OF a6 binLoop_post [OF b6]]
      alternating_resolved [OF a7 binLoop_post [OF b7]]
    show ?thesis by simp
  qed
  have first: "\<exists>r0 t0 r1 t1 r2 t2 r3 t3 r4 t4 r5 t5 r6 t6 r7 new.
       notLoop s (Some st) = Some (r0, t0)
     \<and> rtranclp negationReplaced s r0 \<and> \<not> matchNot r0
     \<and> binLoop AND r0 t0 = Some (r1, t1)
     \<and> rtranclp (operatorReplaced AND) r0 r1 \<and> \<not> matchBin AND r1
     \<and> binLoop OR r1 t1 = Some (r2, t2)
     \<and> rtranclp (operatorReplaced OR) r1 r2 \<and> \<not> matchBin OR r2
     \<and> binLoop NAND r2 t2 = Some (r3, t3)
     \<and> rtranclp (operatorReplaced NAND) r2 r3 \<and> \<not> matchBin NAND r3
     \<and> binLoop NOR r3 t3 = Some (r4, t4)
     \<and> rtranclp (operatorReplaced NOR) r3 r4 \<and> \<not> matchBin NOR r4
     \<and> binLoop XOR r4 t4 = Some (r5, t5)
     \<and> rtranclp (operatorReplaced XOR) r4 r5 \<and> \<not> matchBin XOR r5
     \<and> binLoop XNOR r5 t5 = Some (r6, t6)
     \<and> rtranclp (operatorReplaced XNOR) r5 r6 \<and> \<not> matchBin XNOR r6
     \<and> binLoop IMPLICATION r6 t6 = Some (r7, Some (st @ new))
     \<and> rtranclp (operatorReplaced IMPLICATION) r6 r7 \<and> \<not> matchBin IMPLICATION r7
     \<and> evaluateSubExpression s (Some st) = Some (r7 = [49], Some (st @ new))
     \<and> evaluateSubExpression s None = Some (r7 = [49], None)
     \<and> sorted (map (\<lambda>x. precedence (stepOperator x)) new)
     \<and> (\<forall>x\<in>set new. reduction x)
     \<and> (negationsApplicable s \<longrightarrow> NOT_symbol \<notin> set r0)
     \<and> (wellFormed s \<longrightarrow>
           NOT_symbol \<notin> set r0 \<and> symbol AND \<notin> set r1 \<and> symbol OR \<notin> set r2
         \<and> symbol NAND \<notin> set r3 \<and> symbol NOR \<notin> set r4 \<and> symbol XOR \<notin> set r5
         \<and> symbol XNOR \<notin> set r6 \<and> symbol IMPLICATION \<notin> set r7
         \<and> (\<exists>d. isDigit d \<and> r7 = [d]))"
    apply (rule exI [of _ r0], rule exI [of _ t0], rule exI [of _ r1], rule exI [of _ t1])
    apply (rule exI [of _ r2], rule exI [of _ t2], rule exI [of _ r3], rule exI [of _ t3])
    apply (rule exI [of _ r4], rule exI [of _ t4], rule exI [of _ r5], rule exI [of _ t5])
    apply (rule exI [of _ r6], rule exI [of _ t6], rule exI [of _ r7])
    apply (rule exI [of _ "new1 @ new2"])
    apply (intro conjI)
    apply (rule n)
    apply (rule notLoop_replaced [OF n])
    apply (rule notLoop_post [OF n])
    apply (rule b1)
    apply (rule binLoop_replaced [OF b1])
    apply (rule binLoop_post [OF b1])
    apply (rule b2)
    apply (rule binLoop_replaced [OF b2])
    apply (rule binLoop_post [OF b2])
    apply (rule b3)
    apply (rule binLoop_replaced [OF b3])
    apply (rule binLoop_post [OF b3])
    apply (rule b4)
    apply (rule binLoop_replaced [OF b4])
    apply (rule binLoop_post [OF b4])
    apply (rule b5)
    apply (rule binLoop_replaced [OF b5])
    apply (rule binLoop_post [OF b5])
    apply (rule b6)
    apply (rule binLoop_replaced [OF b6])
    apply (rule binLoop_post [OF b6])
    apply (rule b7')
    apply (rule binLoop_replaced [OF b7])
    apply (rule binLoop_post [OF b7])
    apply (rule e)
    apply (rule evaluateSubExpression_untraced [OF e])
    apply (rule sorted12)
    apply (rule red12)
    apply (rule none_left)
    using formed apply blast
    done
  have second: "evaluateSubExpression [NOT_symbol, digit x] None = Some (\<not> x, None)"
    by (cases x) (simp_all add: eval_defs)
  have third: "evaluateSubExpression [digit x, symbol op, digit y] None
               = Some (truthTable op x y, None)"
    by (cases op; cases x; cases y) (simp_all add: eval_defs)
  have fourth: "operatorOrder = [AND, OR, NAND, NOR, XOR, XNOR, IMPLICATION]"
    by (simp add: operatorOrder_def)
  have fifth: "map precedence (NOT_symbol # map symbol operatorOrder) = [0, 1, 2, 3, 4, 5, 6, 7]"
    by (simp add: precedence_def operatorOrder_def NOT_symbol_def)
  have sixth: "isDigit c \<longleftrightarrow> c \<in> set (str ''01'')"
    by (auto simp: isDigit_def str_def)
  from first second third fourth fifth sixth show ?thesis
    by (intro conjI)
qed

theorem evaluateSubExpression_precedence_witness:
  "wellFormed [NOT_symbol, 48, symbol OR, 49, symbol AND, 48]
   \<and> negationsApplicable [NOT_symbol, 48, symbol OR, 49, symbol AND, 48]
   \<and> notLoop [NOT_symbol, 48, symbol OR, 49, symbol AND, 48] (Some [])
       = Some ([49, symbol OR, 49, symbol AND, 48], Some [snd (notCallback [NOT_symbol, 48] 48)])
   \<and> binLoop AND [49, symbol OR, 49, symbol AND, 48] None = Some ([49, symbol OR, 48], None)
   \<and> binLoop OR [49, symbol OR, 48] None = Some ([49], None)
   \<and> evaluateSubExpression [NOT_symbol, 48, symbol OR, 49, symbol AND, 48] (Some []) =
     Some (True,
       Some [snd (notCallback [NOT_symbol, 48] 48),
             snd (binCallback AND [49, symbol AND, 48] 49 48),
             snd (binCallback OR [49, symbol OR, 48] 49 48)])
   \<and> map (\<lambda>x. precedence (stepOperator x))
        [snd (notCallback [NOT_symbol, 48] 48),
         snd (binCallback AND [49, symbol AND, 48] 49 48),
         snd (binCallback OR [49, symbol OR, 48] 49 48)] = [0, 1, 2]
   \<and> map stepResult
        [snd (notCallback [NOT_symbol, 48] 48),
         snd (binCallback AND [49, symbol AND, 48] 49 48),
         snd (binCallback OR [49, symbol OR, 48] 49 48)] = [[49], [48], [49]]
   \<and> evaluateSubExpression [NOT_symbol, digit True] None = Some (False, None)
   \<and> evaluateSubExpression [digit True, symbol IMPLICATION, digit False] None
       = Some (False, None)"
proof -
  have hyps: "wellFormed [NOT_symbol, 48, symbol OR, 49, symbol AND, 48]"
    "negationsApplicable [NOT_symbol, 48, symbol OR, 49, symbol AND, 48]"
    by (simp_all add: NOT_symbol_def isDigit_def isBinaryOperator_def operatorOrder_def)
  have loops: "notLoop [NOT_symbol, 48, symbol OR, 49, symbol AND, 48] (Some [])
       = Some ([49, symbol OR, 49, symbol AND, 48], Some [snd (notCallback [NOT_symbol, 48] 48)])"
    "binLoop AND [49, symbol OR, 49, symbol AND, 48] None = Some ([49, symbol OR, 48], None)"
    "binLoop OR [49, symbol OR, 48] None = Some ([49], None)"
    by (simp_all add: eval_defs)
  have run: "evaluateSubExpression [NOT_symbol, 48, symbol OR, 49, symbol AND, 48] (Some []) =
     Some (True,
       Some [snd (notCallback [NOT_symbol, 48] 48),
             snd (binCallback AND [49, symbol AND, 48] 49 48),
             snd (binCallback OR [49, symbol OR, 48] 49 48)])"
    by (simp add: eval_defs)
  have ranks: "map (\<lambda>x. precedence (stepOperator x))
        [snd (notCallback [NOT_symbol, 48] 48),
         snd (binCallback AND [49, symbol AND, 48] 49 48),
         snd (binCallback OR [49, symbol OR, 48] 49 48)] = [0, 1, 2]"
    by (simp add: notCallback_def binCallback_def precedence_def stepOperator_def
          operatorOrder_def NOT_symbol_def Let_def)
  have results: "map stepResult
        [snd (notCallback [NOT_symbol, 48] 48),
         snd (binCallback AND [49, symbol AND, 48] 49 48),
         snd (binCallback OR [49, symbol OR, 48] 49 48)] = [[49], [48], [49]]"
    by (simp add: notCallback_def binCallback_def operator_NOT_def digit_def Let_def)
  from evaluateSubExpression_precedence
         [of "[NOT_symbol, 48, symbol OR, 49, symbol AND, 48]" "[]" True IMPLICATION False 48]
       hyps loops run ranks results
  show ?thesis by simp
qed

text \<open>
  The claim as stated, with every negation resolved until none remains and the
  occurrences of an operator replaced until no occurrence of that operator remains, fails
  on the string \<open>1 NOT AND 0\<close> (written without blanks), which is made of digits and
  operator symbols only. No negation sign stands in front of a digit and no AND stands
  between two digits, so the negation loop and the loop of AND leave the string as it
  is, with its negation sign and its AND, and the result is false.
\<close>

theorem evaluateSubExpression_precedence_counterexample:
  "notLoop [49, NOT_symbol, symbol AND, 48] None = Some ([49, NOT_symbol, symbol AND, 48], None)
   \<and> NOT_symbol \<in> set [49, NOT_symbol, symbol AND, 48]
   \<and> binLoop AND [49, NOT_symbol, symbol AND, 48] None
       = Some ([49, NOT_symbol, symbol AND, 48], None)
   \<and> symbol AND \<in> set [49, NOT_symbol, symbol AND, 48]
   \<and> evaluateSubExpression [49, NOT_symbol, symbol AND, 48] None = Some (False, None)"
  by (simp add: eval_defs)

text \<open>
  The table \<open>operators\<close> holds the truth tables of the seven binary operators, and an
  expression \<open>p op q\<close> written without blanks is evaluated by them, for every operator and
  every assignment to \<open>p\<close> and \<open>q\<close>.
\<close>

lemma evaluateExpression_no_spaces:
  "evaluateExpression (Some ([name P, symbol op, name Q])) [(P, a), (Q, b)] False
   = Some \<lparr>result = operators op a b, steps = [], substitutionSteps = None, expression = None\<rparr>"
  by (cases op; cases a; cases b) (simp_all add: eval_defs)

text \<open>
  The example of the function's own comment, \<open>evaluateExpression('p AND q', {p: true,
  q: true}, true)\<close> with blanks around the operator, is announced with the result true;
  the code gives false.
\<close>

lemma evaluateExpression_comment_example:
  "map_option result
     (evaluateExpression (Some (str ''p '' @ [symbol AND] @ str '' q'')) [(P, True), (Q, True)] True)
   = Some False"
  by (simp add: eval_defs Let_def)

text \<open>
  Claim C2. The claim asks for the value of the truth table when \<open>"p <op> q"\<close> is
  evaluated, and its examples, like those of the function's own comment, are written with
  blanks around the operator. The pattern of a binary pass asks for a digit right before
  and right after the operator, so with blanks no pass replaces anything, the string is
  not \<open>"1"\<close> at the end, and the result is false whatever the table says. The claim asks
  for true at \<open>"p \<rightarrow> q"\<close> with both variables false; the code gives false.
\<close>

theorem evaluateExpression_implication_spaces:
  "evaluateExpression (Some (str ''p '' @ [symbol IMPLICATION] @ str '' q''))
     [(P, False), (Q, False)] False
   = Some \<lparr>result = False, steps = [], substitutionSteps = None, expression = None\<rparr>"
  by (simp add: eval_defs)

text \<open>
  Claim C7. An entry of the assignment for a variable that does not occur in the
  expression is ignored: with the entry added, or the value of such a key replaced, the
  whole returned object (the result and both step lists) is the same, with and without a
  trace.
\<close>

theorem absent_variable_ignored:
  "(name v \<notin> set e \<longrightarrow>
      evaluateExpression (Some e) (assign v b a) t = evaluateExpression (Some e) a t)
   \<and> evaluateExpression None (assign v b a) t = evaluateExpression None a t"
  by (simp add: evaluateExpression_def foldl_assign)

theorem absent_variable_ignored_witness:
  "name R \<notin> set [name P, symbol AND, name Q]
   \<and> evaluateExpression (Some [name P, symbol AND, name Q])
        (assign R True [(P, True), (Q, False)]) True
     = evaluateExpression (Some [name P, symbol AND, name Q]) [(P, True), (Q, False)] True
   \<and> assign R True [(P, True), (Q, False)] = [(P, True), (Q, False), (R, True)]"
  using absent_variable_ignored [of R "[name P, symbol AND, name Q]" True "[(P, True), (Q, False)]" True]
  by simp

text \<open>
  Claim C9, as amended. A variable without an entry raises no error: the function always
  returns, and the variable is still in the working string after the substitution. A
  string with a variable in it that reaches \<open>evaluateSubExpression\<close> gives false, since
  no pass touches the variable and the reduced string is then not \<open>"1"\<close>. So the result
  of the whole expression is false whenever a variable is still in the string that the
  parenthesis loop, run with or without a trace on the string after the substitution,
  hands to the final evaluation, whatever parentheses the expression has. In particular
  an expression without parentheses in which an unassigned variable occurs gives false,
  and \<open>evaluateExpression("p", {})\<close> returns \<open>{result: false, steps: []}\<close>. Inside a
  parenthesised group it is the group that gives false: the group is replaced by \<open>'0'\<close>
  and the evaluation goes on, so the result of the whole expression need not be false.
  The witness evaluates \<open>p AND q\<close> and \<open>p AND (q)\<close> (written without blanks) with an entry
  for \<open>q\<close> only.
\<close>

theorem unassigned_variable:
  "(\<exists>r. evaluateExpression expr a t = Some r)
   \<and> (name v \<in> set e \<and> v \<notin> fst ` set a \<longrightarrow> name v \<in> set (workingString e a (length a)))
   \<and> (name v \<in> set s \<longrightarrow> (\<exists>st'. evaluateSubExpression s st = Some (False, st')))
   \<and> (name v \<in> set sub \<longrightarrow> (\<exists>pushed. parenCallback t m sub = Some (48, pushed)))
   \<and> (e' \<noteq> [] \<and> parenLoop t' (workingString e' a (length a)) st0 = Some (r2, st2)
        \<and> name v \<in> set r2 \<longrightarrow>
        (\<exists>r. evaluateExpression (Some e') a t = Some r \<and> \<not> result r))
   \<and> (name v \<in> set e \<and> v \<notin> fst ` set a \<and> 40 \<notin> set e \<longrightarrow>
        (\<exists>r. evaluateExpression (Some e) a t = Some r \<and> \<not> result r))
   \<and> evaluateExpression (Some (str ''p'')) [] False =
        Some \<lparr>result = False, steps = [], substitutionSteps = None, expression = None\<rparr>"
proof -
  have keeps: "name v \<in> set (fst (foldl (substitute t') (e, ss) a))"
    if "name v \<in> set e" and "v \<notin> fst ` set a" for t' ss
  proof (rule foldl_substitute_keeps)
    show "name v \<in> set e" by (rule that(1))
    show "name v \<notin> name ` fst ` set a"
      using that(2) by (force simp: name_inject)
  qed
  have second: "name v \<in> set e \<and> v \<notin> fst ` set a \<longrightarrow> name v \<in> set (workingString e a (length a))"
    using keeps [of False None] by (simp add: workingString_def)
  have third: "name v \<in> set s \<longrightarrow> (\<exists>st'. evaluateSubExpression s st = Some (False, st'))"
    using evaluateSubExpression_leftover [of "name v" s st] by (simp add: name_not_special)
  have group: "name v \<in> set sub \<longrightarrow> (\<exists>pushed. parenCallback t m sub = Some (48, pushed))"
  proof
    assume "name v \<in> set sub"
    then obtain st' where
      "evaluateSubExpression sub (if t then Some [] else None) = Some (False, st')"
      using evaluateSubExpression_leftover [of "name v" sub] by (auto simp: name_not_special)
    then show "\<exists>pushed. parenCallback t m sub = Some (48, pushed)"
      by (simp add: parenCallback_def digit_def)
  qed
  have reaches: "\<exists>r. evaluateExpression (Some e') a t = Some r \<and> \<not> result r"
    if ne: "e' \<noteq> []"
      and any: "parenLoop t' (workingString e' a (length a)) st0 = Some (r2, st2)"
      and v: "name v \<in> set r2"
  proof -
    note flat = parenLoop_untraced [OF any]
    let ?w = "workingString e' a (length a)"
    let ?ss0 = "if t then Some [Step (str ''Expresi'' @ [243] @ str ''n original'') e' e' None] else None"
    let ?st1 = "if t then pushAll (Some [])
                      [Step (str ''Sustituci'' @ [243] @ str ''n de variables'')
                         (str ''Expresi'' @ [243] @ str ''n con valores: '' @ ?w)
                         ?w None] else None"
    obtain ss1 where f: "foldl (substitute t) (e', ?ss0) a = (?w, ss1)"
      using workingString_final [of t e' ?ss0 a]
      by (cases "foldl (substitute t) (e', ?ss0) a") simp
    obtain r2' st2' where p: "parenLoop t ?w ?st1 = Some (r2', st2')"
      using parenLoop_total [of t ?w ?st1] by auto
    from parenLoop_untraced [OF p] flat have "r2' = r2"
      by simp
    with p have p': "parenLoop t ?w ?st1 = Some (r2, st2')"
      by simp
    obtain st3 where s: "evaluateSubExpression r2 st2' = Some (False, st3)"
      using evaluateSubExpression_leftover [of "name v" r2 st2'] v
      by (auto simp: name_not_special)
    from ne f p' s show ?thesis
      by (cases t) (simp_all add: evaluateExpression_def Let_def)
  qed
  have fourth: "\<exists>r. evaluateExpression (Some e) a t = Some r \<and> \<not> result r"
    if v: "name v \<in> set e" "v \<notin> fst ` set a" and e: "40 \<notin> set e"
  proof -
    have ne: "e \<noteq> []"
      using v(1) by auto
    obtain r1 ss1 where f: "foldl (substitute t) (e,
        if t then Some [Step (str ''Expresi'' @ [243] @ str ''n original'') e e None] else None) a
        = (r1, ss1)"
      by fastforce
    have in1: "name v \<in> set r1"
      using keeps [OF v, of t "if t then Some [Step (str ''Expresi'' @ [243] @ str ''n original'') e e None] else None"] f
      by simp
    have "40 \<notin> set r1"
      using foldl_substitute_new [OF e, of t "if t then Some [Step (str ''Expresi'' @ [243] @ str ''n original'') e e None] else None" a] f
      by simp
    then have p: "parenLoop t r1 st1 = Some (r1, st1)" for st1
      by (rule parenLoop_no_paren)
    obtain st3 where "evaluateSubExpression r1 (if t then pushAll (Some [])
                      [Step (str ''Sustituci'' @ [243] @ str ''n de variables'')
                         (str ''Expresi'' @ [243] @ str ''n con valores: '' @ r1)
                         r1 None] else None) = Some (False, st3)"
      using evaluateSubExpression_leftover [of "name v" r1] in1
      by (auto simp: name_not_special)
    with ne f p show ?thesis
      by (cases t) (simp_all add: evaluateExpression_def Let_def)
  qed
  have fifth: "evaluateExpression (Some (str ''p'')) [] False =
        Some \<lparr>result = False, steps = [], substitutionSteps = None, expression = None\<rparr>"
    by (simp add: eval_defs)
  from evaluateExpression_total [of expr a t] second third group reaches fourth fifth show ?thesis
    by blast
qed

theorem unassigned_variable_witness:
  "name P \<in> set [name P, symbol AND, name Q] \<and> P \<notin> fst ` set [(Q, True)]
   \<and> (40::nat) \<notin> set [name P, symbol AND, name Q]
   \<and> workingString [name P, symbol AND, name Q] [(Q, True)] (length [(Q, True)])
       = [name P, symbol AND, 49]
   \<and> evaluateSubExpression [name P, symbol AND, 49] None = Some (False, None)
   \<and> evaluateExpression (Some [name P, symbol AND, name Q]) [(Q, True)] False =
        Some \<lparr>result = False, steps = [], substitutionSteps = None, expression = None\<rparr>
   \<and> parenCallback False (str ''(p)'') [name P] = Some (48, [])
   \<and> [name P, symbol AND] @ str ''(q)'' \<noteq> []
   \<and> workingString ([name P, symbol AND] @ str ''(q)'') [(Q, True)] (length [(Q, True)])
       = [name P, symbol AND] @ str ''(1)''
   \<and> parenLoop False ([name P, symbol AND] @ str ''(1)'') None
       = Some ([name P, symbol AND, 49], None)
   \<and> name P \<in> set [name P, symbol AND, 49]
   \<and> evaluateExpression (Some ([name P, symbol AND] @ str ''(q)'')) [(Q, True)] False =
        Some \<lparr>result = False, steps = [], substitutionSteps = None, expression = None\<rparr>"
proof -
  have a: "name P \<in> set [name P, symbol AND, name Q] \<and> P \<notin> fst ` set [(Q, True)]
     \<and> (40::nat) \<notin> set [name P, symbol AND, name Q]"
    by simp
  have b: "workingString [name P, symbol AND, name Q] [(Q, True)] (length [(Q, True)])
       = [name P, symbol AND, 49]"
    by (simp add: workingString_def digit_def isWordChar_def)
  have c: "evaluateSubExpression [name P, symbol AND, 49] None = Some (False, None)"
    by (simp add: eval_defs)
  have d: "evaluateExpression (Some [name P, symbol AND, name Q]) [(Q, True)] False =
        Some \<lparr>result = False, steps = [], substitutionSteps = None, expression = None\<rparr>"
    by (simp add: eval_defs)
  have e: "parenCallback False (str ''(p)'') [name P] = Some (48, [])"
    by (simp add: eval_defs)
  have f: "workingString ([name P, symbol AND] @ str ''(q)'') [(Q, True)] (length [(Q, True)])
       = [name P, symbol AND] @ str ''(1)''"
    by (simp add: workingString_def digit_def isWordChar_def str_def)
  have g: "parenLoop False ([name P, symbol AND] @ str ''(1)'') None
       = Some ([name P, symbol AND, 49], None)"
    by (simp add: eval_defs)
  have h: "evaluateExpression (Some ([name P, symbol AND] @ str ''(q)'')) [(Q, True)] False =
        Some \<lparr>result = False, steps = [], substitutionSteps = None, expression = None\<rparr>"
    by (simp add: eval_defs)
  from unassigned_variable [where expr = "Some [name P, symbol AND, name Q]"
         and a = "[(Q, True)]" and t = False and v = P
         and e = "[name P, symbol AND, name Q]" and s = "[name P, symbol AND, 49]"
         and st = None and sub = "[name P]" and m = "str ''(p)''"
         and e' = "[name P, symbol AND] @ str ''(q)''" and t' = False and ?st0.0 = None
         and ?r2.0 = "[name P, symbol AND, 49]" and ?st2.0 = None]
       a b c d e f g h
  show ?thesis by simp
qed

text \<open>
  The claim as stated fails at the negation of \<open>(p)\<close> with the empty assignment: the
  variable occurs and has no entry, the group gives \<open>'0'\<close>, its negation is \<open>'1'\<close>, and the
  result is true.
\<close>

theorem unassigned_variable_counterexample:
  "name P \<in> set ([NOT_symbol] @ str ''(p)'') \<and> P \<notin> fst ` set []
   \<and> map_option result (evaluateExpression (Some ([NOT_symbol] @ str ''(p)'')) [] False)
       = Some True"
  by (simp add: eval_defs)

text \<open>
  Claim C6, as amended. With a trace, \<open>substitutionSteps\<close> holds first a step that
  records the original expression, and then one step for each entry of the assignment
  whose replacement changed the working string, in the order of the entries, with the
  name of the variable, its truth value and the string after that substitution; it holds
  nothing else. The step that shows the string with all variables replaced is recorded
  right after the substitution as the first step of the main list \<open>steps\<close>.
\<close>

theorem substitutionSteps_recorded:
  "e \<noteq> [] \<longrightarrow>
     (\<exists>r rest. evaluateExpression (Some e) a True = Some r
        \<and> substitutionSteps r =
            Some (originalStep e
                  # map (\<lambda>i. substitutionStep (a ! i) (workingString e a (Suc i)))
                      (changedEntries e a))
        \<and> steps r = substitutedStep (workingString e a (length a)) # rest)"
proof
  assume ne: "e \<noteq> []"
  let ?w = "workingString e a (length a)"
  let ?ss = "Some ([originalStep e] @ map (\<lambda>i. substitutionStep (a ! i) (workingString e a (Suc i)))
                      (changedEntries e a))"
  have f: "foldl (substitute True) (e, Some [originalStep e]) a = (?w, ?ss)"
    by (rule foldl_substitute_trace)
  obtain r2 st2 where p: "parenLoop True ?w (Some [substitutedStep ?w]) = Some (r2, st2)"
    using parenLoop_total [of True ?w "Some [substitutedStep ?w]"] by auto
  then obtain new2 where st2: "st2 = Some ([substitutedStep ?w] @ new2)"
    using parenLoop_trace by blast
  obtain b st3 where s: "evaluateSubExpression r2 (Some ([substitutedStep ?w] @ new2)) = Some (b, st3)"
    using evaluateSubExpression_total [of r2 "Some ([substitutedStep ?w] @ new2)"] by auto
  then obtain new3 where st3: "st3 = Some (([substitutedStep ?w] @ new2) @ new3)"
    using evaluateSubExpression_trace by blast
  have "evaluateExpression (Some e) a True =
      Some \<lparr>result = b, steps = substitutedStep ?w # new2 @ new3,
              substitutionSteps = ?ss, expression = Some e\<rparr>"
    using ne f p st2 s st3
    by (simp add: evaluateExpression_def Let_def pushAll_def originalStep_def substitutedStep_def)
  then show "\<exists>r rest. evaluateExpression (Some e) a True = Some r
        \<and> substitutionSteps r =
            Some (originalStep e
                  # map (\<lambda>i. substitutionStep (a ! i) (workingString e a (Suc i)))
                      (changedEntries e a))
        \<and> steps r = substitutedStep (workingString e a (length a)) # rest"
    by simp
qed

theorem substitutionSteps_recorded_witness:
  "[name P, symbol AND, name Q] \<noteq> []
   \<and> changedEntries [name P, symbol AND, name Q] [(P, True), (R, False), (Q, False)] = [0, 2]
   \<and> map_option substitutionSteps
        (evaluateExpression (Some [name P, symbol AND, name Q])
           [(P, True), (R, False), (Q, False)] True)
      = Some (Some [originalStep [name P, symbol AND, name Q],
                    substitutionStep (P, True) [49, symbol AND, name Q],
                    substitutionStep (Q, False) [49, symbol AND, 48]])
   \<and> map_option (hd \<circ> steps)
        (evaluateExpression (Some [name P, symbol AND, name Q])
           [(P, True), (R, False), (Q, False)] True)
      = Some (substitutedStep [49, symbol AND, 48])"
proof -
  let ?e = "[112, 8743, 113]"
  let ?a = "[(P, True), (R, False), (Q, False)]"
  have w: "workingString ?e ?a 0 = [112, 8743, 113]"
    "workingString ?e ?a (Suc 0) = [49, 8743, 113]"
    "workingString ?e ?a (Suc (Suc 0)) = [49, 8743, 113]"
    "workingString ?e ?a (Suc (Suc (Suc 0))) = [49, 8743, 48]"
    by (simp_all add: workingString_def digit_def isWordChar_def)
  have c: "changedEntries ?e ?a = [0, 2]"
    by (simp add: changedEntries_def w)
  from substitutionSteps_recorded [of ?e ?a]
  obtain r rest where r: "evaluateExpression (Some ?e) ?a True = Some r"
    and ss: "substitutionSteps r =
            Some (originalStep ?e
                  # map (\<lambda>i. substitutionStep (?a ! i) (workingString ?e ?a (Suc i)))
                      (changedEntries ?e ?a))"
    and st: "steps r = substitutedStep (workingString ?e ?a (length ?a)) # rest"
    by blast
  have m: "map (\<lambda>i. substitutionStep (?a ! i) (workingString ?e ?a (Suc i))) [0, 2]
      = [substitutionStep (P, True) [49, 8743, 113], substitutionStep (Q, False) [49, 8743, 48]]"
    using w by (simp add: numeral_2_eq_2)
  have l: "workingString ?e ?a (length ?a) = [49, 8743, 48]"
    using w(4) by simp
  from r ss st c m l show ?thesis
    by simp
qed

text \<open>
  The claim as stated fails for \<open>"p"\<close> with \<open>p\<close> true: the claimed list is the step of
  \<open>p\<close> followed by the step with all variables replaced; the list of the code starts
  with the step of the original expression, and the step with all variables replaced is
  in \<open>steps\<close>.
\<close>

theorem substitutionSteps_counterexample:
  "map_option substitutionSteps (evaluateExpression (Some (str ''p'')) [(P, True)] True)
     = Some (Some [originalStep (str ''p''), substitutionStep (P, True) (str ''1'')])
   \<and> map_option steps (evaluateExpression (Some (str ''p'')) [(P, True)] True)
     = Some [substitutedStep (str ''1'')]
   \<and> [originalStep (str ''p''), substitutionStep (P, True) (str ''1'')]
     \<noteq> [substitutionStep (P, True) (str ''1''), substitutedStep (str ''1'')]"
  by (simp add: eval_defs Let_def originalStep_def substitutionStep_def substitutedStep_def)

end
